theory Spec2Isabelle
  imports Main "HOL-Library.AList" "HOL-Library.Sublist"
begin

section \<open>Values, nodes and the store\<close>

text \<open>
  The virtual filesystem of \<^verbatim>\<open>src/Vfs.js\<close> is a graph of mutable \<^verbatim>\<open>VfsNode\<close> objects
  that the \<^verbatim>\<open>Vfs\<close> instance, the parent back-references and the mount points all
  alias. The model keeps the objects in a store: a list of nodes, the address of a node
  being its index, and every operation takes the whole \<^verbatim>\<open>Vfs\<close> state and returns the
  new one together with what the JavaScript call returns or throws. A state survives an
  exception: what the code mutated before it threw stays mutated.
\<close>

type_synonym addr = nat

text \<open>A directory handle of the storage provider: an opaque capability.\<close>

datatype handle = Handle nat

text \<open>
  A \<^verbatim>\<open>Blob\<close>/\<^verbatim>\<open>File\<close> object. \<^verbatim>\<open>write_file\<close> builds one from \<^verbatim>\<open>content\<close> and sets its
  \<^verbatim>\<open>name\<close>; the provider's files also carry \<^verbatim>\<open>webkitRelativePath\<close> and, per directory
  level, \<^verbatim>\<open>directoryHandle\<close> (absent is \<open>None\<close>).
\<close>

record blob =
  blob_name :: string
  blob_content :: string
  blob_type :: string
  webkitRelativePath :: string
  directoryHandle :: "handle option"

text \<open>The values a metadata object holds.\<close>

datatype jsval = VUndefined | VNum nat | VStr string | VBlob blob | VHandle handle

fun truthy :: "jsval \<Rightarrow> bool" where
  "truthy VUndefined = False"
| "truthy (VNum n) = (n \<noteq> 0)"
| "truthy (VStr s) = (s \<noteq> [])"
| "truthy (VBlob b) = True"
| "truthy (VHandle h) = True"

text \<open>
  A metadata object is a list of its own properties in creation order. Reading a
  property that is absent gives \<^verbatim>\<open>undefined\<close>.
\<close>

type_synonym object = "(string \<times> jsval) list"

definition get_prop :: "object \<Rightarrow> string \<Rightarrow> jsval" where
  "get_prop ob k = (case map_of ob k of None \<Rightarrow> VUndefined | Some v \<Rightarrow> v)"

text \<open>\<^verbatim>\<open>Object.assign(target, source)\<close>: each property of the source, in order, is set on the target.\<close>

definition object_assign :: "object \<Rightarrow> object \<Rightarrow> object" where
  "object_assign target source = fold (\<lambda>(k, v). AList.update k v) source target"

record vfs_node =
  name :: string
  metadata :: object
  parent :: "addr option"
  children :: "(string \<times> addr) list"

text \<open>
  What a variable that should hold a node can hold: \<^verbatim>\<open>null\<close>, \<^verbatim>\<open>undefined\<close>, \<^verbatim>\<open>false\<close>,
  a node, or a property that the \<^verbatim>\<open>_children\<close> object inherits from \<^verbatim>\<open>Object.prototype\<close>.
\<close>

datatype jsref = JNull | JUndefined | JFalse | NodeRef addr | ProtoRef string

datatype error = TypeError | ProviderError

datatype 'a outcome = Return 'a | Throw error

record mount_point =
  mtype :: string
  mpath :: string
  mroot :: jsref

text \<open>
  The \<^verbatim>\<open>Vfs\<close> instance. \<open>calls\<close> is not a field of the class: it records, in order, the
  \<^verbatim>\<open>getDirectoryHandle(name, {create: true})\<close> requests issued to the storage provider, each
  with the handle it was issued on.
\<close>

record vfs =
  node_id :: nat
  root :: addr
  nodes :: "vfs_node list"
  mount_points :: "mount_point list"
  calls :: "(handle \<times> string) list"

text \<open>
  The storage provider's answer to a request, given the requests issued before it:
  the new handle, or \<open>None\<close> when the promise is rejected.
\<close>

type_synonym provider = "(handle \<times> string) list \<Rightarrow> handle \<Rightarrow> string \<Rightarrow> handle option"

text \<open>The constructor: \<^verbatim>\<open>node_id = 0; root = new VfsNode("", {id: node_id++}); mount_points = []\<close>.\<close>

definition new_vfs :: vfs where
  "new_vfs = \<lparr>node_id = 1, root = 0,
     nodes = [\<lparr>name = '''', metadata = [(''id'', VNum 0)], parent = None, children = []\<rparr>],
     mount_points = [], calls = []\<rparr>"

section \<open>The children object\<close>

text \<open>
  \<^verbatim>\<open>_children\<close> is a plain object \<^verbatim>\<open>{}\<close>, so it inherits the properties of
  \<^verbatim>\<open>Object.prototype\<close>, and the \<^verbatim>\<open>in\<close> operator sees them.
\<close>

definition object_prototype_names :: "string list" where
  "object_prototype_names =
     [''constructor'', ''__defineGetter__'', ''__defineSetter__'', ''hasOwnProperty'',
      ''__lookupGetter__'', ''__lookupSetter__'', ''isPrototypeOf'', ''propertyIsEnumerable'',
      ''toString'', ''valueOf'', ''__proto__'', ''toLocaleString'']"

definition inherited :: "string \<Rightarrow> bool" where
  "inherited seg = (seg \<in> set object_prototype_names)"

text \<open>\<^verbatim>\<open>segment in cnode._children\<close>\<close>

definition has_property :: "(string \<times> addr) list \<Rightarrow> string \<Rightarrow> bool" where
  "has_property ch seg = (map_of ch seg \<noteq> None \<or> inherited seg)"

text \<open>\<^verbatim>\<open>cnode._children[segment]\<close>\<close>

definition get_property :: "(string \<times> addr) list \<Rightarrow> string \<Rightarrow> jsref" where
  "get_property ch seg =
     (case map_of ch seg of
        Some b \<Rightarrow> NodeRef b
      | None \<Rightarrow> if inherited seg then ProtoRef seg else JUndefined)"

text \<open>
  \<^verbatim>\<open>Object.getOwnPropertyNames\<close> lists the keys that are array indices first, in ascending
  numeric order, then the other keys in creation order. An array index is the canonical
  decimal string of an integer below \<open>2^32 - 1\<close>.
\<close>

definition is_digit :: "char \<Rightarrow> bool" where
  "is_digit c = (48 \<le> (of_char c :: nat) \<and> (of_char c :: nat) \<le> 57)"

definition decimal :: "string \<Rightarrow> nat" where
  "decimal s = foldl (\<lambda>n c. 10 * n + ((of_char c :: nat) - 48)) 0 s"

definition is_array_index :: "string \<Rightarrow> bool" where
  "is_array_index s =
     (s \<noteq> [] \<and> list_all is_digit s \<and> (s = ''0'' \<or> hd s \<noteq> CHR ''0'') \<and> decimal s < 2 ^ 32 - 1)"

definition own_property_names :: "(string \<times> addr) list \<Rightarrow> string list" where
  "own_property_names ch =
     sort_key decimal (filter is_array_index (map fst ch))
     @ filter (\<lambda>k. \<not> is_array_index k) (map fst ch)"

text \<open>
  \<^verbatim>\<open>Array.from(cnode.children()).map(node => node.name)\<close>: the generator yields
  \<^verbatim>\<open>this._children[cname]\<close> for each own property name; each is a child node.
\<close>

definition child_names :: "vfs_node list \<Rightarrow> addr \<Rightarrow> string list" where
  "child_names ns a =
     map (\<lambda>cname. case map_of (children (ns ! a)) cname of Some b \<Rightarrow> name (ns ! b) | None \<Rightarrow> [])
       (own_property_names (children (ns ! a)))"

section \<open>Paths\<close>

text \<open>\<^verbatim>\<open>path.split("/")\<close>\<close>

fun split_slash :: "string \<Rightarrow> string list" where
  "split_slash [] = [[]]"
| "split_slash (c # cs) =
     (if c = CHR ''/'' then [] # split_slash cs
      else (case split_slash cs of w # ws \<Rightarrow> (c # w) # ws | [] \<Rightarrow> [[c]]))"

text \<open>A path argument is a string or an array of segments.\<close>

datatype path_arg = PStr string | PArr "string list"

fun normalize_path :: "path_arg \<Rightarrow> string list" where
  "normalize_path (PStr p) = filter (\<lambda>s. length s > 0) (split_slash p)"
| "normalize_path (PArr segs) = segs"

section \<open>The tree: push and open\<close>

text \<open>
  One missing segment: \<^verbatim>\<open>cnode._children[segment] = new VfsNode(segment, {id: this.node_id++,
  type: "folder"}); cnode._children[segment].parent = cnode\<close>.
\<close>

definition new_child :: "vfs \<Rightarrow> addr \<Rightarrow> string \<Rightarrow> vfs" where
  "new_child s a seg =
     s\<lparr>node_id := node_id s + 1,
       nodes := (nodes s)[a := (nodes s ! a)\<lparr>children := children (nodes s ! a) @ [(seg, length (nodes s))]\<rparr>]
                @ [\<lparr>name = seg, metadata = [(''id'', VNum (node_id s)), (''type'', VStr ''folder'')],
                    parent = Some a, children = []\<rparr>]\<rparr>"

text \<open>
  The loop of \<^verbatim>\<open>_push\<close>. Evaluating \<^verbatim>\<open>segment in cnode._children\<close> throws a TypeError
  when \<^verbatim>\<open>cnode\<close> is not a node: \<^verbatim>\<open>null\<close> has no properties, and the \<^verbatim>\<open>_children\<close> of an
  inherited function is \<^verbatim>\<open>undefined\<close>.
\<close>

fun push_loop :: "vfs \<Rightarrow> jsref \<Rightarrow> string list \<Rightarrow> jsref outcome \<times> vfs" where
  "push_loop s c [] = (Return c, s)"
| "push_loop s c (seg # segs) =
     (case c of
        NodeRef a \<Rightarrow>
          (let s1 = (if \<not> has_property (children (nodes s ! a)) seg then new_child s a seg else s)
           in push_loop s1 (get_property (children (nodes s1 ! a)) seg) segs)
      | _ \<Rightarrow> (Throw TypeError, s))"

text \<open>
  \<^verbatim>\<open>cnode.metadata = Object.assign(cnode.metadata, {type: "file"}, metadata); return cnode\<close>.
  Off a node, \<^verbatim>\<open>cnode.metadata\<close> is \<^verbatim>\<open>undefined\<close> (or the read itself throws) and
  \<^verbatim>\<open>Object.assign\<close> throws a TypeError.
\<close>

definition merge_metadata :: "vfs \<Rightarrow> addr \<Rightarrow> object \<Rightarrow> vfs" where
  "merge_metadata s a md =
     s\<lparr>nodes := (nodes s)[a := (nodes s ! a)
          \<lparr>metadata := object_assign (object_assign (metadata (nodes s ! a)) [(''type'', VStr ''file'')]) md\<rparr>]\<rparr>"

definition priv_push :: "vfs \<Rightarrow> jsref \<Rightarrow> path_arg \<Rightarrow> object \<Rightarrow> jsref outcome \<times> vfs" where
  "priv_push s mount segments md =
     (case push_loop s mount (normalize_path segments) of
        (Throw e, s1) \<Rightarrow> (Throw e, s1)
      | (Return (NodeRef a), s1) \<Rightarrow> (Return (NodeRef a), merge_metadata s1 a md)
      | (Return _, s1) \<Rightarrow> (Throw TypeError, s1))"

fun open_loop :: "vfs_node list \<Rightarrow> jsref \<Rightarrow> string list \<Rightarrow> jsref outcome" where
  "open_loop ns c [] = Return c"
| "open_loop ns c (seg # segs) =
     (case c of
        NodeRef a \<Rightarrow>
          (if \<not> has_property (children (ns ! a)) seg then Return JNull
           else open_loop ns (get_property (children (ns ! a)) seg) segs)
      | _ \<Rightarrow> Throw TypeError)"

definition priv_open :: "vfs \<Rightarrow> jsref \<Rightarrow> path_arg \<Rightarrow> jsref outcome" where
  "priv_open s mount segments = open_loop (nodes s) mount (normalize_path segments)"

definition vfs_open :: "vfs \<Rightarrow> path_arg \<Rightarrow> jsref outcome" where
  "vfs_open s segments = priv_open s (NodeRef (root s)) segments"

text \<open>
  \<^verbatim>\<open>ls\<close>: \<^verbatim>\<open>cnode == null\<close> holds of \<^verbatim>\<open>null\<close> and \<^verbatim>\<open>undefined\<close>; \<open>None\<close> is the
  \<^verbatim>\<open>null\<close> it returns. An inherited property has no \<^verbatim>\<open>children\<close> method.
\<close>

definition ls :: "vfs \<Rightarrow> path_arg \<Rightarrow> string list option outcome" where
  "ls s segments =
     (case vfs_open s segments of
        Throw e \<Rightarrow> Throw e
      | Return JNull \<Rightarrow> Return None
      | Return JUndefined \<Rightarrow> Return None
      | Return (NodeRef a) \<Rightarrow> Return (Some (child_names (nodes s) a))
      | Return _ \<Rightarrow> Throw TypeError)"

section \<open>The mount table\<close>

text \<open>\<^verbatim>\<open>path.startsWith(mount_point.path)\<close> and \<^verbatim>\<open>path.slice(mount_point.path.length)\<close>\<close>

fun get_mount :: "mount_point list \<Rightarrow> string \<Rightarrow> mount_point option \<times> string" where
  "get_mount [] path = (None, path)"
| "get_mount (mp # mps) path =
     (if prefix (mpath mp) path then (Some mp, drop (length (mpath mp)) path)
      else get_mount mps path)"

section \<open>The memory backend\<close>

definition priv_mkdir_memfs :: "vfs \<Rightarrow> jsref \<Rightarrow> string \<Rightarrow> jsref outcome \<times> vfs" where
  "priv_mkdir_memfs s rt path = priv_push s rt (PStr path) [(''type'', VStr ''folder'')]"

definition priv_write_file_memfs :: "vfs \<Rightarrow> jsref \<Rightarrow> string \<Rightarrow> blob \<Rightarrow> jsref outcome \<times> vfs" where
  "priv_write_file_memfs s rt path b =
     priv_push s rt (PStr path) [(''type'', VStr ''file''), (''blob'', VBlob b)]"

section \<open>The local backend\<close>

text \<open>
  The loop of \<^verbatim>\<open>_closest_directory_handler_local\<close>. \<open>None\<close> is \<^verbatim>\<open>[null, null, null]\<close>.
  \<^verbatim>\<open>pdir && pdir.metadata.directoryHandle\<close> throws a TypeError when \<^verbatim>\<open>pdir\<close> is an
  inherited property, whose \<^verbatim>\<open>metadata\<close> is \<^verbatim>\<open>undefined\<close>.
\<close>

function closest_loop ::
  "vfs_node list \<Rightarrow> jsref \<Rightarrow> string list \<Rightarrow> string list \<Rightarrow> (jsval \<times> jsref \<times> string list) option outcome"
where
  "closest_loop ns mount segments to_create =
     (case open_loop ns mount segments of
        Throw e \<Rightarrow> Throw e
      | Return (ProtoRef p) \<Rightarrow> Throw TypeError
      | Return (NodeRef a) \<Rightarrow>
          (if truthy (get_prop (metadata (ns ! a)) ''directoryHandle'')
           then Return (Some (get_prop (metadata (ns ! a)) ''directoryHandle'', NodeRef a, rev to_create))
           else if segments = [] then Return None
           else closest_loop ns mount (butlast segments) (to_create @ [last segments]))
      | Return _ \<Rightarrow>
          (if segments = [] then Return None
           else closest_loop ns mount (butlast segments) (to_create @ [last segments])))"
  by pat_completeness auto
termination
  by (relation "measure (\<lambda>(ns, mount, segments, to_create). length segments)") auto

definition priv_closest_directory_handler_local ::
  "vfs \<Rightarrow> jsref \<Rightarrow> string \<Rightarrow> (jsval \<times> jsref \<times> string list) option outcome" where
  "priv_closest_directory_handler_local s mount path =
     closest_loop (nodes s) mount (normalize_path (PStr path)) []"

text \<open>
  The loop of \<^verbatim>\<open>_mkdir_local\<close>. The request is recorded when it is issued; a rejected
  promise ends the call with the provider's error. A truthy \<^verbatim>\<open>handler\<close> that is not a
  handle has no \<^verbatim>\<open>getDirectoryHandle\<close> method.
\<close>

fun mkdir_loop :: "provider \<Rightarrow> vfs \<Rightarrow> jsval \<Rightarrow> jsref \<Rightarrow> string list \<Rightarrow> jsref outcome \<times> vfs" where
  "mkdir_loop prov s handler node [] = (Return node, s)"
| "mkdir_loop prov s handler node (pdir # rest) =
     (case handler of
        VHandle h \<Rightarrow>
          (let s1 = s\<lparr>calls := calls s @ [(h, pdir)]\<rparr> in
           case prov (calls s) h pdir of
             None \<Rightarrow> (Throw ProviderError, s1)
           | Some new_handler \<Rightarrow>
               (case node of
                  NodeRef a \<Rightarrow>
                    (case get_property (children (nodes s1 ! a)) pdir of
                       NodeRef b \<Rightarrow>
                         mkdir_loop prov
                           (s1\<lparr>nodes := (nodes s1)[b := (nodes s1 ! b)
                                \<lparr>metadata := AList.update ''directoryHandle'' (VHandle new_handler)
                                               (metadata (nodes s1 ! b))\<rparr>]\<rparr>)
                           (VHandle new_handler) (NodeRef b) rest
                     | _ \<Rightarrow> (Throw TypeError, s1))
                | _ \<Rightarrow> (Throw TypeError, s1)))
      | _ \<Rightarrow> (Throw TypeError, s))"

definition priv_mkdir_local :: "provider \<Rightarrow> vfs \<Rightarrow> mount_point \<Rightarrow> string \<Rightarrow> jsref outcome \<times> vfs" where
  "priv_mkdir_local prov s mount path =
     (case priv_closest_directory_handler_local s (mroot mount) path of
        Throw e \<Rightarrow> (Throw e, s)
      | Return None \<Rightarrow> (Return JNull, s)
      | Return (Some (handler, node, rest)) \<Rightarrow>
          (case priv_push s node (PArr rest) [(''type'', VStr ''folder'')] of
             (Throw e, s1) \<Rightarrow> (Throw e, s1)
           | (Return _, s1) \<Rightarrow> mkdir_loop prov s1 handler node rest))"

text \<open>\<^verbatim>\<open>_write_file_local\<close> ends without a \<^verbatim>\<open>return\<close>: on success it yields \<^verbatim>\<open>undefined\<close>.\<close>

definition priv_write_file_local :: "vfs \<Rightarrow> mount_point \<Rightarrow> string \<Rightarrow> blob \<Rightarrow> jsref outcome \<times> vfs" where
  "priv_write_file_local s mount path b =
     (case priv_closest_directory_handler_local s (mroot mount) path of
        Throw e \<Rightarrow> (Throw e, s)
      | Return None \<Rightarrow> (Return JNull, s)
      | Return (Some (handler, node, rest)) \<Rightarrow>
          (case priv_push s node (PArr rest) [(''type'', VStr ''file'')] of
             (Throw e, s1) \<Rightarrow> (Throw e, s1)
           | (Return _, s1) \<Rightarrow> (Return JUndefined, s1)))"

section \<open>The public operations\<close>

text \<open>With a mount point whose type is not \<^verbatim>\<open>"local"\<close> neither branch is taken: \<^verbatim>\<open>undefined\<close>.\<close>

definition mkdir :: "provider \<Rightarrow> vfs \<Rightarrow> string \<Rightarrow> jsref outcome \<times> vfs" where
  "mkdir prov s path =
     (case get_mount (mount_points s) path of
        (None, rest) \<Rightarrow> priv_mkdir_memfs s (NodeRef (root s)) rest
      | (Some mount_point, rest) \<Rightarrow>
          if mtype mount_point = ''local'' then priv_mkdir_local prov s mount_point rest
          else (Return JUndefined, s))"

text \<open>
  \<^verbatim>\<open>new Blob([content], {type: metadata || "plain/text"}); blob.name = file_name\<close>. The hint
  is \<open>None\<close> when the argument is left out; the empty string is falsy too. The \<^verbatim>\<open>Blob\<close>
  constructor normalises the type it is given: a type with a character outside the range
  U+0020 to U+007E becomes the empty string, any other type is converted to ASCII lower case.
\<close>

definition ascii_lower :: "char \<Rightarrow> char" where
  "ascii_lower c =
     (case map_of (zip ''ABCDEFGHIJKLMNOPQRSTUVWXYZ'' ''abcdefghijklmnopqrstuvwxyz'') c of
        Some l \<Rightarrow> l
      | None \<Rightarrow> c)"

definition blob_type_of :: "string \<Rightarrow> string" where
  "blob_type_of t =
     (if list_all (\<lambda>c. 32 \<le> (of_char c :: nat) \<and> (of_char c :: nat) \<le> 126) t
      then map ascii_lower t else [])"

definition make_blob :: "string \<Rightarrow> string \<Rightarrow> string option \<Rightarrow> blob" where
  "make_blob file_name content hint =
     \<lparr>blob_name = file_name, blob_content = content,
      blob_type = blob_type_of
        (case hint of None \<Rightarrow> ''plain/text'' | Some t \<Rightarrow> if t = [] then ''plain/text'' else t),
      webkitRelativePath = [], directoryHandle = None\<rparr>"

definition write_file :: "vfs \<Rightarrow> string \<Rightarrow> string \<Rightarrow> string \<Rightarrow> string option \<Rightarrow> jsref outcome \<times> vfs" where
  "write_file s path file_name content hint =
     (let b = make_blob file_name content hint in
      case get_mount (mount_points s) path of
        (None, rest) \<Rightarrow> priv_write_file_memfs s (NodeRef (root s)) rest b
      | (Some mount_point, rest) \<Rightarrow>
          if mtype mount_point = ''local'' then priv_write_file_local s mount_point rest b
          else (Return JUndefined, s))"

section \<open>Mounting\<close>

text \<open>
  \<^verbatim>\<open>mount_local_file\<close>. \<open>picked\<close> is what \<^verbatim>\<open>FS.fileOpen()\<close> resolves to, \<open>None\<close> when it is
  rejected. Every exception inside the \<^verbatim>\<open>try\<close> block is caught and turned into \<^verbatim>\<open>false\<close>.
\<close>

definition mount_local_file :: "vfs \<Rightarrow> string \<Rightarrow> blob option \<Rightarrow> jsref outcome \<times> vfs" where
  "mount_local_file s path picked =
     (case vfs_open s (PStr path) of
        Throw e \<Rightarrow> (Return JFalse, s)
      | Return rt \<Rightarrow>
          (case picked of
             None \<Rightarrow> (Return JFalse, s)
           | Some b \<Rightarrow>
               (case priv_push s rt (PStr (blob_name b)) [(''blob'', VBlob b), (''type'', VStr ''file'')] of
                  (Throw e, s1) \<Rightarrow> (Return JFalse, s1)
                | (Return mount_node, s1) \<Rightarrow>
                    (Return mount_node,
                     s1\<lparr>mount_points := mount_points s1 @
                          [\<lparr>mtype = ''local'', mpath = path @ ''/'' @ blob_name b, mroot = mount_node\<rparr>]\<rparr>))))"

text \<open>
  The loop of \<^verbatim>\<open>mount_local_folder\<close>; \<open>False\<close> when an iteration throws. A node without
  parent has \<^verbatim>\<open>parent == null\<close>, and reading \<^verbatim>\<open>null.metadata\<close> throws.
\<close>

definition handle_value :: "handle option \<Rightarrow> jsval" where
  "handle_value ho = (case ho of None \<Rightarrow> VUndefined | Some h \<Rightarrow> VHandle h)"

fun folder_loop :: "vfs \<Rightarrow> jsref \<Rightarrow> blob list \<Rightarrow> bool \<times> vfs" where
  "folder_loop s rt [] = (True, s)"
| "folder_loop s rt (b # bs) =
     (case priv_push s rt (PStr (webkitRelativePath b)) [(''blob'', VBlob b)] of
        (Return (NodeRef a), s1) \<Rightarrow>
          (case parent (nodes s1 ! a) of
             None \<Rightarrow> (False, s1)
           | Some p \<Rightarrow>
               folder_loop
                 (s1\<lparr>nodes := (nodes s1)[p := (nodes s1 ! p)
                      \<lparr>metadata := object_assign (metadata (nodes s1 ! p))
                                     [(''directoryHandle'', handle_value (directoryHandle b))]\<rparr>]\<rparr>)
                 rt bs)
      | (_, s1) \<Rightarrow> (False, s1))"

text \<open>
  \<^verbatim>\<open>normalize_path(last_path)[0]\<close> is \<^verbatim>\<open>undefined\<close> when there is no segment; as a property
  key and in the string concatenation it then reads \<^verbatim>\<open>"undefined"\<close>.
\<close>

definition root_name_of :: "string \<Rightarrow> string" where
  "root_name_of last_path =
     (case normalize_path (PStr last_path) of [] \<Rightarrow> ''undefined'' | seg # segs \<Rightarrow> seg)"

definition mount_local_folder :: "vfs \<Rightarrow> string \<Rightarrow> blob list option \<Rightarrow> jsref outcome \<times> vfs" where
  "mount_local_folder s path picked =
     (case vfs_open s (PStr path) of
        Throw e \<Rightarrow> (Return JFalse, s)
      | Return rt \<Rightarrow>
          (case picked of
             None \<Rightarrow> (Return JFalse, s)
           | Some blobs \<Rightarrow>
               (case folder_loop s rt blobs of
                  (False, s1) \<Rightarrow> (Return JFalse, s1)
                | (True, s1) \<Rightarrow>
                    if blobs = [] then (Return JFalse, s1)
                    else
                      (case rt of
                         NodeRef r \<Rightarrow>
                           (let root_name = root_name_of (webkitRelativePath (last blobs));
                                mount_node = get_property (children (nodes s1 ! r)) root_name
                            in (Return mount_node,
                                s1\<lparr>mount_points := mount_points s1 @
                                     [\<lparr>mtype = ''local'', mpath = path @ ''/'' @ root_name, mroot = mount_node\<rparr>]\<rparr>))
                       | _ \<Rightarrow> (Return JFalse, s1)))))"

section \<open>Sequences of operations\<close>

text \<open>
  A call of a public operation, with what the storage provider's pickers answer to it.
\<close>

datatype op =
    Open path_arg
  | Ls path_arg
  | Mkdir string
  | WriteFile string string string "string option"
  | MountLocalFile string "blob option"
  | MountLocalFolder string "blob list option"

fun apply_op :: "provider \<Rightarrow> vfs \<Rightarrow> op \<Rightarrow> vfs" where
  "apply_op prov s (Open p) = s"
| "apply_op prov s (Ls p) = s"
| "apply_op prov s (Mkdir p) = snd (mkdir prov s p)"
| "apply_op prov s (WriteFile p f c h) = snd (write_file s p f c h)"
| "apply_op prov s (MountLocalFile p picked) = snd (mount_local_file s p picked)"
| "apply_op prov s (MountLocalFolder p picked) = snd (mount_local_folder s p picked)"

definition run :: "provider \<Rightarrow> vfs \<Rightarrow> op list \<Rightarrow> vfs" where
  "run prov s ops = foldl (apply_op prov) s ops"

text \<open>Two providers for the examples: one rejects every request, one grants every request
  with a handle numbered after the requests issued so far.\<close>

definition refusing_provider :: provider where
  "refusing_provider cs h n = None"

definition granting_provider :: provider where
  "granting_provider cs h n = Some (Handle (Suc (length cs)))"

section \<open>Well-formed states and example data\<close>

definition docs_mount :: mount_point where
  "docs_mount = \<lparr>mtype = ''local'', mpath = ''/docs'', mroot = NodeRef 1\<rparr>"

definition src_mount :: mount_point where
  "src_mount = \<lparr>mtype = ''local'', mpath = ''/src'', mroot = NodeRef 2\<rparr>"

definition node_ok :: "vfs_node list \<Rightarrow> addr \<Rightarrow> vfs_node \<Rightarrow> bool" where
  "node_ok ns a n =
     (distinct (map fst (children n)) \<and>
      list_all (\<lambda>(k, b). a < b \<and> b < length ns \<and> name (ns ! b) = k \<and> \<not> inherited k) (children n))"

definition wf_store :: "vfs_node list \<Rightarrow> bool" where
  "wf_store ns = list_all (\<lambda>(a, n). node_ok ns a n) (enumerate 0 ns)"

definition ref_ok :: "vfs_node list \<Rightarrow> jsref \<Rightarrow> bool" where
  "ref_ok ns c = (case c of NodeRef a \<Rightarrow> a < length ns | _ \<Rightarrow> True)"

definition pushed :: "string set \<Rightarrow> vfs \<Rightarrow> vfs \<Rightarrow> bool" where
  "pushed S s s' =
     (root s' = root s \<and> mount_points s' = mount_points s \<and> calls s' = calls s \<and>
      length (nodes s) \<le> length (nodes s') \<and>
      node_id s' = node_id s + (length (nodes s') - length (nodes s)) \<and>
      (\<forall>b < length (nodes s).
         name (nodes s' ! b) = name (nodes s ! b) \<and> parent (nodes s' ! b) = parent (nodes s ! b) \<and>
         metadata (nodes s' ! b) = metadata (nodes s ! b) \<and>
         prefix (children (nodes s ! b)) (children (nodes s' ! b))) \<and>
      (\<forall>b. length (nodes s) \<le> b \<and> b < length (nodes s') \<longrightarrow>
         name (nodes s' ! b) \<in> S \<and>
         metadata (nodes s' ! b) =
           [(''id'', VNum (node_id s + (b - length (nodes s)))), (''type'', VStr ''folder'')]))"

definition handle_or_undefined :: "jsval \<Rightarrow> bool" where
  "handle_or_undefined v = (case v of VUndefined \<Rightarrow> True | VHandle h \<Rightarrow> True | _ \<Rightarrow> False)"

definition handles_ok :: "vfs_node list \<Rightarrow> bool" where
  "handles_ok ns = list_all (\<lambda>n. handle_or_undefined (get_prop (metadata n) ''directoryHandle'')) ns"

definition id_of :: "vfs_node \<Rightarrow> nat option" where
  "id_of n = (case get_prop (metadata n) ''id'' of VNum k \<Rightarrow> Some k | _ \<Rightarrow> None)"

definition id_less :: "nat option \<Rightarrow> nat option \<Rightarrow> bool" where
  "id_less x y = (case (x, y) of (Some i, Some j) \<Rightarrow> i < j | _ \<Rightarrow> False)"

definition id_below :: "nat \<Rightarrow> nat option \<Rightarrow> bool" where
  "id_below n x = (case x of Some k \<Rightarrow> k < n | None \<Rightarrow> False)"

definition ids_ok :: "vfs \<Rightarrow> bool" where
  "ids_ok s =
     (sorted_wrt id_less (map id_of (nodes s)) \<and> list_all (id_below (node_id s)) (map id_of (nodes s)))"

definition wf_vfs :: "vfs \<Rightarrow> bool" where
  "wf_vfs s =
     (wf_store (nodes s) \<and> root s < length (nodes s) \<and>
      list_all (\<lambda>mp. ref_ok (nodes s) (mroot mp)) (mount_points s) \<and>
      handles_ok (nodes s) \<and> ids_ok s)"

text \<open>Replacing the metadata of one node.\<close>

definition set_metadata :: "vfs \<Rightarrow> addr \<Rightarrow> object \<Rightarrow> vfs" where
  "set_metadata s a md = s\<lparr>nodes := (nodes s)[a := (nodes s ! a)\<lparr>metadata := md\<rparr>]\<rparr>"

definition plain_metadata :: "object \<Rightarrow> bool" where
  "plain_metadata md = (''id'' \<notin> fst ` set md \<and> ''directoryHandle'' \<notin> fst ` set md)"

definition dh_truthy :: "vfs_node list \<Rightarrow> addr \<Rightarrow> bool" where
  "dh_truthy ns a = truthy (get_prop (metadata (ns ! a)) ''directoryHandle'')"

text \<open>
  Example data: a provider file \<^verbatim>\<open>proj/x.txt\<close> whose directory level carries the handle
  \<open>Handle 0\<close>; the state after \<^verbatim>\<open>mount_local_folder("")\<close> picked that file, where the mount
  point \<^verbatim>\<open>/proj\<close> has a handle on its root; and the state after \<^verbatim>\<open>mount_local_file("")\<close>
  picked it, where the mount point \<^verbatim>\<open>/x.txt\<close> is rooted at a file node without handle.
\<close>

definition x_txt :: blob where
  "x_txt = \<lparr>blob_name = ''x.txt'', blob_content = ''x'', blob_type = ''text/plain'',
     webkitRelativePath = ''proj/x.txt'', directoryHandle = Some (Handle 0)\<rparr>"

definition proj_vfs :: vfs where
  "proj_vfs = snd (mount_local_folder new_vfs [] (Some [x_txt]))"

definition file_vfs :: vfs where
  "file_vfs = snd (mount_local_file new_vfs [] (Some x_txt))"

text \<open>
  The state after \<^verbatim>\<open>mount_local_file("")\<close> picked the file and \<^verbatim>\<open>mount_local_folder("/x.txt")\<close>
  picked it again with its directory: the first mount point \<^verbatim>\<open>/x.txt\<close> is rooted at a node
  without handle, and below it the folder \<^verbatim>\<open>proj\<close> carries one.
\<close>

definition nested_vfs :: vfs where
  "nested_vfs = run refusing_provider new_vfs
     [MountLocalFile [] (Some x_txt), MountLocalFolder ''/x.txt'' (Some [x_txt])]"

text \<open>
  How a state evolves: nodes are never removed or renamed, keep their id, and their
  children lists only grow at the end.
\<close>

definition grows :: "vfs \<Rightarrow> vfs \<Rightarrow> bool" where
  "grows s s' =
     (root s' = root s \<and> length (nodes s) \<le> length (nodes s') \<and>
      (\<forall>b < length (nodes s).
         name (nodes s' ! b) = name (nodes s ! b) \<and> id_of (nodes s' ! b) = id_of (nodes s ! b) \<and>
         prefix (children (nodes s ! b)) (children (nodes s' ! b))))"

section \<open>Well-formed stores\<close>

lemma wf_store_iff: "wf_store ns \<longleftrightarrow> (\<forall>a < length ns. node_ok ns a (ns ! a))"
  by (auto simp: wf_store_def list_all_iff in_set_enumerate_eq)

lemma wf_store_child:
  assumes "wf_store ns" "a < length ns" "map_of (children (ns ! a)) k = Some b"
  shows "a < b" "b < length ns" "name (ns ! b) = k" "\<not> inherited k"
proof -
  from assms(3) have "(k, b) \<in> set (children (ns ! a))" by (rule map_of_SomeD)
  moreover from assms(1,2) have "node_ok ns a (ns ! a)" by (simp add: wf_store_iff)
  ultimately show "a < b" "b < length ns" "name (ns ! b) = k" "\<not> inherited k"
    by (auto simp: node_ok_def list_all_iff)
qed

lemma push_loop_nonnode:
  "(\<forall>a. c \<noteq> NodeRef a) \<Longrightarrow> push_loop s c segs = (if segs = [] then Return c else Throw TypeError, s)"
  by (cases segs; cases c) auto

lemma push_loop_ProtoRef [simp]:
  "push_loop s (ProtoRef p) segs = (if segs = [] then Return (ProtoRef p) else Throw TypeError, s)"
  by (simp add: push_loop_nonnode)

lemma open_loop_ProtoRef [simp]:
  "open_loop ns (ProtoRef p) segs = (if segs = [] then Return (ProtoRef p) else Throw TypeError)"
  by (cases segs) auto

lemma open_loop_nonnode:
  "(\<forall>a. c \<noteq> NodeRef a) \<Longrightarrow> open_loop ns c segs = (if segs = [] then Return c else Throw TypeError)"
  by (cases segs; cases c) auto

lemma nodes_new_child:
  "a < length (nodes s) \<Longrightarrow> b < length (nodes s) \<Longrightarrow>
   nodes (new_child s a seg) ! b =
     (if b = a then (nodes s ! a)\<lparr>children := children (nodes s ! a) @ [(seg, length (nodes s))]\<rparr>
      else nodes s ! b)"
  by (simp add: new_child_def nth_append)

lemma nodes_new_child_new:
  "nodes (new_child s a seg) ! length (nodes s) =
     \<lparr>name = seg, metadata = [(''id'', VNum (node_id s)), (''type'', VStr ''folder'')],
      parent = Some a, children = []\<rparr>"
  by (simp add: new_child_def nth_append)

lemma length_new_child: "length (nodes (new_child s a seg)) = Suc (length (nodes s))"
  by (simp add: new_child_def)

lemma wf_store_new_child:
  assumes "wf_store (nodes s)" "a < length (nodes s)"
    "map_of (children (nodes s ! a)) seg = None" "\<not> inherited seg"
  shows "wf_store (nodes (new_child s a seg))"
  unfolding wf_store_iff
proof (intro allI impI)
  fix b assume "b < length (nodes (new_child s a seg))"
  then have b: "b < Suc (length (nodes s))" by (simp add: length_new_child)
  let ?ns = "nodes s" and ?ns' = "nodes (new_child s a seg)"
  have old: "\<And>c. c < length ?ns \<Longrightarrow> name (?ns' ! c) = name (?ns ! c)"
    using assms(2) by (simp add: nodes_new_child)
  show "node_ok ?ns' b (?ns' ! b)"
  proof (cases "b = length ?ns")
    case True
    then show ?thesis by (simp add: nodes_new_child_new node_ok_def)
  next
    case False
    with b have bl: "b < length ?ns" by simp
    with assms(1) have ok: "node_ok ?ns b (?ns ! b)" by (simp add: wf_store_iff)
    show ?thesis
    proof (cases "b = a")
      case True
      have "seg \<notin> fst ` set (children (?ns ! a))"
        using assms(3) by (simp add: map_of_eq_None_iff)
      with ok True assms(2,4) old show ?thesis
        by (auto simp: node_ok_def nodes_new_child list_all_iff length_new_child nodes_new_child_new)
    next
      case False
      with ok bl assms(2) old show ?thesis
        by (auto simp: node_ok_def nodes_new_child list_all_iff length_new_child)
    qed
  qed
qed

lemma ref_ok_simps [simp]:
  "ref_ok ns (NodeRef a) = (a < length ns)" "ref_ok ns JNull" "ref_ok ns JUndefined"
  "ref_ok ns JFalse" "ref_ok ns (ProtoRef p)"
  by (simp_all add: ref_ok_def)

lemma pushed_refl: "pushed S s s"
  by (auto simp: pushed_def)

lemma pushed_mono: "pushed S s s' \<Longrightarrow> S \<subseteq> T \<Longrightarrow> pushed T s s'"
  by (auto simp: pushed_def)

lemma pushed_trans:
  assumes "pushed S s s1" "pushed S s1 s2"
  shows "pushed S s s2"
proof -
  have len: "length (nodes s) \<le> length (nodes s1)" "length (nodes s1) \<le> length (nodes s2)"
    using assms by (simp_all add: pushed_def)
  have old: "name (nodes s2 ! b) = name (nodes s ! b) \<and> parent (nodes s2 ! b) = parent (nodes s ! b) \<and>
         metadata (nodes s2 ! b) = metadata (nodes s ! b) \<and>
         prefix (children (nodes s ! b)) (children (nodes s2 ! b))" if "b < length (nodes s)" for b
  proof -
    from that len have b1: "b < length (nodes s1)" by simp
    from assms(1) that have 1: "name (nodes s1 ! b) = name (nodes s ! b)"
      "parent (nodes s1 ! b) = parent (nodes s ! b)" "metadata (nodes s1 ! b) = metadata (nodes s ! b)"
      "prefix (children (nodes s ! b)) (children (nodes s1 ! b))" by (simp_all add: pushed_def)
    from assms(2) b1 have 2: "name (nodes s2 ! b) = name (nodes s1 ! b)"
      "parent (nodes s2 ! b) = parent (nodes s1 ! b)" "metadata (nodes s2 ! b) = metadata (nodes s1 ! b)"
      "prefix (children (nodes s1 ! b)) (children (nodes s2 ! b))" by (simp_all add: pushed_def)
    from 1 2 show ?thesis by (auto intro: prefix_order.trans)
  qed
  have new: "name (nodes s2 ! b) \<in> S \<and> metadata (nodes s2 ! b) =
           [(''id'', VNum (node_id s + (b - length (nodes s)))), (''type'', VStr ''folder'')]"
    if "length (nodes s) \<le> b" "b < length (nodes s2)" for b
  proof (cases "b < length (nodes s1)")
    case True
    with assms(1) that have "name (nodes s1 ! b) \<in> S \<and> metadata (nodes s1 ! b) =
           [(''id'', VNum (node_id s + (b - length (nodes s)))), (''type'', VStr ''folder'')]"
      by (simp add: pushed_def)
    moreover from assms(2) True have "name (nodes s2 ! b) = name (nodes s1 ! b)"
      "metadata (nodes s2 ! b) = metadata (nodes s1 ! b)" by (simp_all add: pushed_def)
    ultimately show ?thesis by simp
  next
    case False
    with assms(2) that have "name (nodes s2 ! b) \<in> S \<and> metadata (nodes s2 ! b) =
           [(''id'', VNum (node_id s1 + (b - length (nodes s1)))), (''type'', VStr ''folder'')]"
      by (simp add: pushed_def)
    moreover from assms(1) have "node_id s1 = node_id s + (length (nodes s1) - length (nodes s))"
      by (simp add: pushed_def)
    ultimately show ?thesis using False len by simp
  qed
  from assms old new len show ?thesis
    unfolding pushed_def by (intro conjI allI impI) auto
qed

lemma pushed_new_child:
  assumes "a < length (nodes s)" "seg \<in> S"
  shows "pushed S s (new_child s a seg)"
proof -
  have fields: "root (new_child s a seg) = root s" "mount_points (new_child s a seg) = mount_points s"
    "calls (new_child s a seg) = calls s" "node_id (new_child s a seg) = Suc (node_id s)"
    by (simp_all add: new_child_def)
  have old: "name (nodes (new_child s a seg) ! b) = name (nodes s ! b) \<and>
      parent (nodes (new_child s a seg) ! b) = parent (nodes s ! b) \<and>
      metadata (nodes (new_child s a seg) ! b) = metadata (nodes s ! b) \<and>
      prefix (children (nodes s ! b)) (children (nodes (new_child s a seg) ! b))"
    if "b < length (nodes s)" for b
    using that assms(1) by (simp add: nodes_new_child)
  have new: "name (nodes (new_child s a seg) ! b) \<in> S \<and>
      metadata (nodes (new_child s a seg) ! b) =
       [(''id'', VNum (node_id s + (b - length (nodes s)))), (''type'', VStr ''folder'')]"
    if "length (nodes s) \<le> b \<and> b < length (nodes (new_child s a seg))" for b
  proof -
    from that have "b = length (nodes s)" by (simp add: length_new_child)
    then show ?thesis using assms(2) by (simp add: nodes_new_child_new)
  qed
  show ?thesis
    unfolding pushed_def using fields old new by (simp add: length_new_child)
qed

lemma prefix_map_of: "prefix xs ys \<Longrightarrow> map_of xs k = Some v \<Longrightarrow> map_of ys k = Some v"
  by (auto simp: prefix_def)

lemma push_loop_Cons:
  assumes "a < length (nodes s)"
  shows "push_loop s (NodeRef a) (seg # segs) =
      (case map_of (children (nodes s ! a)) seg of
         Some b \<Rightarrow> push_loop s (NodeRef b) segs
       | None \<Rightarrow> if inherited seg then push_loop s (ProtoRef seg) segs
                else push_loop (new_child s a seg) (NodeRef (length (nodes s))) segs)"
  using assms
  by (auto simp: has_property_def get_property_def nodes_new_child Let_def split: option.splits)

lemma open_loop_Cons:
  "open_loop ns (NodeRef a) (seg # segs) =
      (case map_of (children (ns ! a)) seg of
         Some b \<Rightarrow> open_loop ns (NodeRef b) segs
       | None \<Rightarrow> if inherited seg then open_loop ns (ProtoRef seg) segs else Return JNull)"
  by (auto simp: has_property_def get_property_def split: option.splits)

declare push_loop.simps(2) [simp del] open_loop.simps(2) [simp del] closest_loop.simps [simp del]

lemma push_loop_props:
  assumes "wf_store (nodes s)" "ref_ok (nodes s) c" "push_loop s c segs = (r, s')" "set segs \<subseteq> S"
  shows "wf_store (nodes s') \<and> pushed S s s' \<and>
         (\<forall>c'. r = Return c' \<longrightarrow> ref_ok (nodes s') c' \<and> open_loop (nodes s') c segs = Return c')"
  using assms
proof (induction segs arbitrary: s c)
  case Nil
  then show ?case by (auto simp: pushed_refl)
next
  case (Cons seg segs)
  show ?case
  proof (cases "\<exists>a. c = NodeRef a")
    case False
    then have "\<forall>a. c \<noteq> NodeRef a" by simp
    from push_loop_nonnode[OF this, of s "seg # segs"] Cons.prems(3)
    have "r = Throw TypeError" "s' = s" by simp_all
    with Cons.prems(1) show ?thesis by (simp add: pushed_refl)
  next
    case True
    then obtain a where c: "c = NodeRef a" by blast
    with Cons.prems have a: "a < length (nodes s)" by simp
    note step = push_loop_Cons[OF a, of seg segs]
    show ?thesis
    proof (cases "map_of (children (nodes s ! a)) seg")
      case (Some b)
      from wf_store_child[OF Cons.prems(1) a Some] have b: "ref_ok (nodes s) (NodeRef b)" by simp
      from Cons.prems(3) step Some c have run: "push_loop s (NodeRef b) segs = (r, s')" by simp
      from Cons.prems(4) have sub: "set segs \<subseteq> S" by simp
      from Cons.IH[OF Cons.prems(1) b run sub]
      have ih: "wf_store (nodes s')" "pushed S s s'"
        "\<forall>c'. r = Return c' \<longrightarrow> ref_ok (nodes s') c' \<and> open_loop (nodes s') (NodeRef b) segs = Return c'"
        by blast+
      from ih(2) a have "prefix (children (nodes s ! a)) (children (nodes s' ! a))"
        by (simp add: pushed_def)
      from prefix_map_of[OF this Some] have "map_of (children (nodes s' ! a)) seg = Some b" .
      with ih c show ?thesis by (simp add: open_loop_Cons)
    next
      case None
      show ?thesis
      proof (cases "inherited seg")
        case True
        with Cons.prems(3) step None c have "push_loop s (ProtoRef seg) segs = (r, s')" by simp
        then have "r = (if segs = [] then Return (ProtoRef seg) else Throw TypeError)" "s' = s"
          by (simp_all add: push_loop_nonnode)
        with Cons.prems(1) None True c show ?thesis
          by (simp add: pushed_refl open_loop_Cons open_loop_nonnode)
      next
        case False
        let ?s1 = "new_child s a seg"
        from Cons.prems(3) step None False c
        have run: "push_loop ?s1 (NodeRef (length (nodes s))) segs = (r, s')" by simp
        have wf1: "wf_store (nodes ?s1)" by (rule wf_store_new_child[OF Cons.prems(1) a None False])
        have ok1: "ref_ok (nodes ?s1) (NodeRef (length (nodes s)))" by (simp add: length_new_child)
        from Cons.prems(4) have sub: "set segs \<subseteq> S" and seg: "seg \<in> S" by simp_all
        from Cons.IH[OF wf1 ok1 run sub]
        have ih: "wf_store (nodes s')" "pushed S ?s1 s'"
          "\<forall>c'. r = Return c' \<longrightarrow> ref_ok (nodes s') c'
              \<and> open_loop (nodes s') (NodeRef (length (nodes s))) segs = Return c'"
          by blast+
        have p: "pushed S s s'" by (rule pushed_trans[OF pushed_new_child[OF a seg] ih(2)])
        have "map_of (children (nodes ?s1 ! a)) seg = Some (length (nodes s))"
          using a None by (simp add: nodes_new_child map_add_def)
        moreover from ih(2) a have "prefix (children (nodes ?s1 ! a)) (children (nodes s' ! a))"
          by (simp add: pushed_def length_new_child)
        ultimately have "map_of (children (nodes s' ! a)) seg = Some (length (nodes s))"
          by (rule prefix_map_of[rotated])
        with ih p c show ?thesis by (simp add: open_loop_Cons)
      qed
    qed
  qed
qed

lemma push_loop_returns:
  assumes "wf_store (nodes s)" "a < length (nodes s)" "\<forall>seg \<in> set segs. \<not> inherited seg"
  shows "\<exists>b s'. push_loop s (NodeRef a) segs = (Return (NodeRef b), s')"
  using assms
proof (induction segs arbitrary: s a)
  case Nil
  then show ?case by simp
next
  case (Cons seg segs)
  note step = push_loop_Cons[OF Cons.prems(2), of seg segs]
  show ?case
  proof (cases "map_of (children (nodes s ! a)) seg")
    case (Some b)
    from wf_store_child[OF Cons.prems(1,2) Some] have "b < length (nodes s)" by simp
    from Cons.IH[OF Cons.prems(1) this] Cons.prems(3) step Some show ?thesis by simp
  next
    case None
    from Cons.prems(3) have ni: "\<not> inherited seg" by simp
    have "wf_store (nodes (new_child s a seg))"
      by (rule wf_store_new_child[OF Cons.prems(1,2) None ni])
    from Cons.IH[OF this, of "length (nodes s)"] Cons.prems(3) step None ni show ?thesis
      by (simp add: length_new_child)
  qed
qed

lemma push_loop_throws:
  "push_loop s c segs = (Throw e, s') \<Longrightarrow> e = TypeError"
proof (induction segs arbitrary: s c)
  case Nil
  then show ?case by simp
next
  case (Cons seg segs)
  then show ?case by (cases c) (auto simp: push_loop.simps(2) Let_def split: if_splits)
qed

lemma push_loop_existing:
  "open_loop (nodes s) c segs = Return (NodeRef b) \<Longrightarrow> push_loop s c segs = (Return (NodeRef b), s)"
proof (induction segs arbitrary: c)
  case Nil
  then show ?case by simp
next
  case (Cons seg segs)
  then show ?case
    by (cases c) (auto simp: push_loop.simps(2) open_loop.simps(2) Let_def split: if_splits)
qed

text \<open>The equations that evaluate the operations on a concrete state.\<close>

lemmas vfs_eval =
  push_loop.simps(2) open_loop.simps(2) closest_loop.simps
  mkdir_def write_file_def make_blob_def blob_type_of_def ascii_lower_def priv_mkdir_memfs_def priv_write_file_memfs_def
  priv_mkdir_local_def priv_write_file_local_def priv_closest_directory_handler_local_def
  priv_push_def priv_open_def vfs_open_def ls_def new_child_def merge_metadata_def
  object_assign_def get_prop_def has_property_def get_property_def inherited_def
  object_prototype_names_def mount_local_file_def mount_local_folder_def root_name_of_def
  handle_value_def new_vfs_def child_names_def own_property_names_def is_array_index_def
  is_digit_def decimal_def Let_def

lemma map_of_object_assign:
  "map_of (object_assign target source) k =
     (case map_of (rev source) k of Some v \<Rightarrow> Some v | None \<Rightarrow> map_of target k)"
  unfolding object_assign_def
proof (induction source arbitrary: target)
  case Nil
  then show ?case by simp
next
  case (Cons kv source)
  obtain k' v' where kv: "kv = (k', v')" by (cases kv)
  show ?case
    by (simp add: Cons.IH kv update_conv' map_add_def split: option.splits)
qed

lemma get_prop_object_assign:
  "get_prop (object_assign target source) k =
     (case map_of (rev source) k of Some v \<Rightarrow> v | None \<Rightarrow> get_prop target k)"
  by (simp add: get_prop_def map_of_object_assign split: option.splits)

lemma get_prop_update:
  "get_prop (AList.update k v ob) k' = (if k' = k then v else get_prop ob k')"
  by (simp add: get_prop_def update_conv')

lemma open_loop_mono:
  assumes "wf_store ns" "ref_ok ns c" "open_loop ns c segs = Return (NodeRef b)"
    "\<forall>a < length ns. prefix (children (ns ! a)) (children (ns' ! a))"
  shows "open_loop ns' c segs = Return (NodeRef b)"
  using assms(2,3)
proof (induction segs arbitrary: c)
  case Nil
  then show ?case by simp
next
  case (Cons seg segs)
  show ?case
  proof (cases c)
    case (NodeRef a)
    with Cons.prems have a: "a < length ns" by simp
    show ?thesis
    proof (cases "map_of (children (ns ! a)) seg")
      case None
      with Cons.prems(2) NodeRef show ?thesis by (simp add: open_loop_Cons split: if_splits)
    next
      case (Some d)
      from wf_store_child[OF assms(1) a Some] have d: "ref_ok ns (NodeRef d)" by simp
      from Cons.prems(2) NodeRef Some have "open_loop ns (NodeRef d) segs = Return (NodeRef b)"
        by (simp add: open_loop_Cons)
      from Cons.IH[OF d this] have "open_loop ns' (NodeRef d) segs = Return (NodeRef b)" .
      moreover from assms(4) a Some have "map_of (children (ns' ! a)) seg = Some d"
        by (blast intro: prefix_map_of)
      ultimately show ?thesis using NodeRef by (simp add: open_loop_Cons)
    qed
  qed (use Cons.prems in \<open>simp_all add: open_loop_nonnode\<close>)
qed

lemma open_loop_ref_ok:
  assumes "wf_store ns" "ref_ok ns c" "open_loop ns c segs = Return r"
  shows "ref_ok ns r"
  using assms(2,3)
proof (induction segs arbitrary: c)
  case Nil
  then show ?case by simp
next
  case (Cons seg segs)
  show ?case
  proof (cases c)
    case (NodeRef a)
    with Cons.prems have a: "a < length ns" by simp
    show ?thesis
    proof (cases "map_of (children (ns ! a)) seg")
      case None
      with Cons.prems(2) NodeRef show ?thesis by (auto simp add: open_loop_Cons split: if_splits)
    next
      case (Some d)
      from wf_store_child[OF assms(1) a Some] have d: "ref_ok ns (NodeRef d)" by simp
      from Cons.prems(2) NodeRef Some have "open_loop ns (NodeRef d) segs = Return r"
        by (simp add: open_loop_Cons)
      from Cons.IH[OF d this] show ?thesis .
    qed
  qed (use Cons.prems in \<open>simp_all add: open_loop_nonnode\<close>)
qed

lemma ids_pushed:
  assumes "pushed S s s'"
  shows "map id_of (nodes s') =
           map id_of (nodes s) @ map Some [node_id s ..< node_id s']"
proof (rule nth_equalityI)
  from assms show "length (map id_of (nodes s')) =
      length (map id_of (nodes s) @ map Some [node_id s ..< node_id s'])"
    by (simp add: pushed_def)
next
  fix b assume "b < length (map id_of (nodes s'))"
  then have b: "b < length (nodes s')" by simp
  show "map id_of (nodes s') ! b = (map id_of (nodes s) @ map Some [node_id s ..< node_id s']) ! b"
  proof (cases "b < length (nodes s)")
    case True
    with assms have "metadata (nodes s' ! b) = metadata (nodes s ! b)" by (simp add: pushed_def)
    with True b show ?thesis by (simp add: nth_append id_of_def)
  next
    case False
    with assms b have "metadata (nodes s' ! b) =
        [(''id'', VNum (node_id s + (b - length (nodes s)))), (''type'', VStr ''folder'')]"
      by (simp add: pushed_def)
    moreover from assms have "node_id s' = node_id s + (length (nodes s') - length (nodes s))"
      by (simp add: pushed_def)
    ultimately show ?thesis using False b by (simp add: nth_append id_of_def get_prop_def)
  qed
qed

lemma ids_ok_pushed:
  assumes "pushed S s s'" "ids_ok s"
  shows "ids_ok s'"
proof -
  note eq = ids_pushed[OF assms(1)]
  from assms(1) have "node_id s' = node_id s + (length (nodes s') - length (nodes s))"
    unfolding pushed_def by blast
  then have le: "node_id s \<le> node_id s'" by linarith
  from assms(2) have old: "\<forall>x \<in> set (map id_of (nodes s)). \<exists>k. x = Some k \<and> k < node_id s"
    by (auto simp: ids_ok_def id_below_def list_all_iff split: option.splits)
  have "sorted_wrt id_less (map Some [node_id s ..< node_id s'])"
    by (simp add: sorted_wrt_map id_less_def sorted_wrt_upt)
  moreover have "\<forall>x \<in> set (map id_of (nodes s)). \<forall>y \<in> set (map Some [node_id s ..< node_id s']). id_less x y"
    using old by (fastforce simp: id_less_def)
  ultimately have "sorted_wrt id_less (map id_of (nodes s'))"
    using assms(2) unfolding eq by (simp add: sorted_wrt_append ids_ok_def)
  moreover have "list_all (id_below (node_id s')) (map id_of (nodes s'))"
    unfolding eq using old le by (fastforce simp: list_all_iff id_below_def)
  ultimately show ?thesis by (simp add: ids_ok_def)
qed

lemma handles_ok_pushed:
  assumes "pushed S s s'" "handles_ok (nodes s)"
  shows "handles_ok (nodes s')"
  unfolding handles_ok_def list_all_length
proof (intro allI impI)
  fix b assume b: "b < length (nodes s')"
  show "handle_or_undefined (get_prop (metadata (nodes s' ! b)) ''directoryHandle'')"
  proof (cases "b < length (nodes s)")
    case True
    with assms show ?thesis by (simp add: pushed_def handles_ok_def list_all_length)
  next
    case False
    with assms(1) b have "metadata (nodes s' ! b) =
        [(''id'', VNum (node_id s + (b - length (nodes s)))), (''type'', VStr ''folder'')]"
      by (simp add: pushed_def)
    then show ?thesis by (simp add: get_prop_def handle_or_undefined_def)
  qed
qed

lemma ref_ok_mono: "ref_ok ns c \<Longrightarrow> length ns \<le> length ns' \<Longrightarrow> ref_ok ns' c"
  by (cases c) simp_all

lemma wf_pushed:
  assumes "pushed S s s'" "wf_vfs s" "wf_store (nodes s')"
  shows "wf_vfs s'"
proof -
  from assms(1) have f: "root s' = root s" "mount_points s' = mount_points s"
    "length (nodes s) \<le> length (nodes s')" by (simp_all add: pushed_def)
  from assms(2) f have "list_all (\<lambda>mp. ref_ok (nodes s') (mroot mp)) (mount_points s')"
    by (auto simp: wf_vfs_def list_all_iff intro: ref_ok_mono)
  with assms f ids_ok_pushed[OF assms(1)] handles_ok_pushed[OF assms(1)] show ?thesis
    by (simp add: wf_vfs_def)
qed

lemma set_metadata_fields [simp]:
  "root (set_metadata s a md) = root s" "node_id (set_metadata s a md) = node_id s"
  "mount_points (set_metadata s a md) = mount_points s" "calls (set_metadata s a md) = calls s"
  "length (nodes (set_metadata s a md)) = length (nodes s)"
  by (simp_all add: set_metadata_def)

lemma set_metadata_nth:
  "b < length (nodes s) \<Longrightarrow>
   nodes (set_metadata s a md) ! b = (if b = a then (nodes s ! a)\<lparr>metadata := md\<rparr> else nodes s ! b)"
  by (simp add: set_metadata_def)

lemma set_metadata_other [simp]:
  "b < length (nodes s) \<Longrightarrow> name (nodes (set_metadata s a md) ! b) = name (nodes s ! b)"
  "b < length (nodes s) \<Longrightarrow> parent (nodes (set_metadata s a md) ! b) = parent (nodes s ! b)"
  "b < length (nodes s) \<Longrightarrow> children (nodes (set_metadata s a md) ! b) = children (nodes s ! b)"
  by (simp_all add: set_metadata_nth)

lemma wf_store_set_metadata:
  assumes "wf_store (nodes s)"
  shows "wf_store (nodes (set_metadata s a md))"
  unfolding wf_store_iff
proof (intro allI impI)
  fix b assume "b < length (nodes (set_metadata s a md))"
  then have b: "b < length (nodes s)" by simp
  with assms have ok: "node_ok (nodes s) b (nodes s ! b)" by (simp add: wf_store_iff)
  have "name (nodes (set_metadata s a md) ! c) = k"
    if "(k, c) \<in> set (children (nodes s ! b))" for k c
  proof -
    from ok that have "c < length (nodes s)" "name (nodes s ! c) = k"
      by (auto simp: node_ok_def list_all_iff)
    then show ?thesis by simp
  qed
  with ok b show "node_ok (nodes (set_metadata s a md)) b (nodes (set_metadata s a md) ! b)"
    by (auto simp: node_ok_def list_all_iff)
qed

lemma wf_set_metadata:
  assumes "wf_vfs s" "a < length (nodes s) \<Longrightarrow> get_prop md ''id'' = get_prop (metadata (nodes s ! a)) ''id''"
    "a < length (nodes s) \<Longrightarrow> handle_or_undefined (get_prop md ''directoryHandle'')"
  shows "wf_vfs (set_metadata s a md)"
proof -
  have ids: "map id_of (nodes (set_metadata s a md)) = map id_of (nodes s)"
    by (rule nth_equalityI) (use assms(2) in \<open>auto simp: set_metadata_nth id_of_def\<close>)
  have "handles_ok (nodes (set_metadata s a md))"
    using assms(1,3) by (auto simp: wf_vfs_def handles_ok_def list_all_length set_metadata_nth)
  moreover have "list_all (\<lambda>mp. ref_ok (nodes (set_metadata s a md)) (mroot mp)) (mount_points s)"
    using assms(1) by (auto simp: wf_vfs_def list_all_iff intro: ref_ok_mono)
  moreover have "ids_ok (set_metadata s a md)"
    using assms(1) unfolding wf_vfs_def ids_ok_def ids by simp
  ultimately show ?thesis
    using assms(1) wf_store_set_metadata[of s a md] by (simp add: wf_vfs_def)
qed

lemma merge_metadata_eq:
  "merge_metadata s a md =
     set_metadata s a (object_assign (object_assign (metadata (nodes s ! a)) [(''type'', VStr ''file'')]) md)"
  by (simp add: merge_metadata_def set_metadata_def)

lemma priv_push_cases:
  assumes "wf_store (nodes s)" "ref_ok (nodes s) rt"
  obtains (returns) b s0 where
      "push_loop s rt (normalize_path p) = (Return (NodeRef b), s0)"
      "priv_push s rt p md = (Return (NodeRef b), merge_metadata s0 b md)"
      "b < length (nodes s0)" "wf_store (nodes s0)" "pushed (set (normalize_path p)) s s0"
      "open_loop (nodes s0) rt (normalize_path p) = Return (NodeRef b)"
  | (throws) s0 where
      "priv_push s rt p md = (Throw TypeError, s0)"
      "wf_store (nodes s0)" "pushed (set (normalize_path p)) s s0"
proof -
  obtain r s0 where run: "push_loop s rt (normalize_path p) = (r, s0)"
    by (cases "push_loop s rt (normalize_path p)")
  from push_loop_props[OF assms run subset_refl]
  have props: "wf_store (nodes s0)" "pushed (set (normalize_path p)) s s0"
    "\<forall>c'. r = Return c' \<longrightarrow> ref_ok (nodes s0) c' \<and> open_loop (nodes s0) rt (normalize_path p) = Return c'"
    by blast+
  show thesis
  proof (cases r)
    case (Throw e)
    with run push_loop_throws[of s rt "normalize_path p" e s0] have "e = TypeError" by simp
    with run Throw have "priv_push s rt p md = (Throw TypeError, s0)" by (simp add: priv_push_def)
    then show ?thesis using props(1,2) by (rule throws)
  next
    case (Return c)
    show ?thesis
    proof (cases c)
      case (NodeRef b)
      with run Return have "priv_push s rt p md = (Return (NodeRef b), merge_metadata s0 b md)"
        by (simp add: priv_push_def)
      moreover from props(3) Return NodeRef have "b < length (nodes s0)"
        "open_loop (nodes s0) rt (normalize_path p) = Return (NodeRef b)" by simp_all
      ultimately show ?thesis using run Return NodeRef props(1,2) by (intro returns) simp_all
    qed (use run Return props(1,2) in \<open>auto simp: priv_push_def intro: throws\<close>)
  qed
qed

lemma plain_metadata_map_of:
  "plain_metadata md \<Longrightarrow> map_of (rev md) ''id'' = None \<and> map_of (rev md) ''directoryHandle'' = None"
  by (simp add: plain_metadata_def map_of_eq_None_iff)

lemma wf_merge_metadata:
  assumes "wf_vfs s" "plain_metadata md"
  shows "wf_vfs (merge_metadata s a md)"
  unfolding merge_metadata_eq
proof (rule wf_set_metadata[OF assms(1)])
  note plain = plain_metadata_map_of[OF assms(2)]
  from plain
  show "get_prop (object_assign (object_assign (metadata (nodes s ! a)) [(''type'', VStr ''file'')]) md) ''id''
      = get_prop (metadata (nodes s ! a)) ''id''"
    by (simp add: get_prop_object_assign)
  assume "a < length (nodes s)"
  with assms(1) have "handle_or_undefined (get_prop (metadata (nodes s ! a)) ''directoryHandle'')"
    by (simp add: wf_vfs_def handles_ok_def list_all_length)
  with plain show "handle_or_undefined
     (get_prop (object_assign (object_assign (metadata (nodes s ! a)) [(''type'', VStr ''file'')]) md)
       ''directoryHandle'')"
    by (simp add: get_prop_object_assign)
qed

lemma wf_priv_push:
  assumes "wf_vfs s" "ref_ok (nodes s) rt" "plain_metadata md"
  shows "wf_vfs (snd (priv_push s rt p md))"
proof -
  from assms(1) have ws: "wf_store (nodes s)" by (simp add: wf_vfs_def)
  from ws assms(2) show ?thesis
  proof (cases rule: priv_push_cases[where p = p and md = md])
    case (returns b s0)
    from wf_pushed[OF returns(5) assms(1) returns(4)] have "wf_vfs s0" .
    from wf_merge_metadata[OF this assms(3)] returns(2) show ?thesis by simp
  next
    case (throws s0)
    from wf_pushed[OF throws(3) assms(1) throws(2)] throws(1) show ?thesis by simp
  qed
qed

lemma closest_loop_unfold:
  "closest_loop ns mount segments to_create =
     (case open_loop ns mount segments of
        Throw e \<Rightarrow> Throw e
      | Return (ProtoRef p) \<Rightarrow> Throw TypeError
      | Return (NodeRef a) \<Rightarrow>
          (if dh_truthy ns a
           then Return (Some (get_prop (metadata (ns ! a)) ''directoryHandle'', NodeRef a, rev to_create))
           else if segments = [] then Return None
           else closest_loop ns mount (butlast segments) (to_create @ [last segments]))
      | Return _ \<Rightarrow>
          (if segments = [] then Return None
           else closest_loop ns mount (butlast segments) (to_create @ [last segments])))"
  unfolding dh_truthy_def by (rule closest_loop.simps)

lemma closest_loop_snoc:
  "closest_loop ns mount (segs @ [seg]) tc =
     (case open_loop ns mount (segs @ [seg]) of
        Throw e \<Rightarrow> Throw e
      | Return (ProtoRef p) \<Rightarrow> Throw TypeError
      | Return (NodeRef a) \<Rightarrow>
          (if dh_truthy ns a
           then Return (Some (get_prop (metadata (ns ! a)) ''directoryHandle'', NodeRef a, rev tc))
           else closest_loop ns mount segs (tc @ [seg]))
      | Return _ \<Rightarrow> closest_loop ns mount segs (tc @ [seg]))"
  by (subst closest_loop_unfold) (simp split: outcome.splits jsref.splits)

lemma closest_loop_Nil:
  "closest_loop ns mount [] tc =
     (case mount of
        ProtoRef p \<Rightarrow> Throw TypeError
      | NodeRef a \<Rightarrow>
          (if dh_truthy ns a
           then Return (Some (get_prop (metadata (ns ! a)) ''directoryHandle'', NodeRef a, rev tc))
           else Return None)
      | _ \<Rightarrow> Return None)"
  by (subst closest_loop_unfold) (simp split: jsref.splits)

text \<open>What a successful search returns.\<close>

lemma closest_loop_some:
  assumes "wf_store ns" "ref_ok ns m" "closest_loop ns m segs tc = Return (Some (v, node, rest))"
  shows "\<exists>a k. node = NodeRef a \<and> a < length ns \<and> k \<le> length segs
            \<and> open_loop ns m (take k segs) = Return (NodeRef a)
            \<and> rest = drop k segs @ rev tc
            \<and> v = get_prop (metadata (ns ! a)) ''directoryHandle'' \<and> dh_truthy ns a
            \<and> (\<forall>j a'. k < j \<and> j \<le> length segs \<and> open_loop ns m (take j segs) = Return (NodeRef a')
                  \<longrightarrow> \<not> dh_truthy ns a')"
  using assms(3)
proof (induction segs arbitrary: tc rule: rev_induct)
  case Nil
  then show ?case using assms(2)
    by (auto simp: closest_loop_Nil split: jsref.splits if_splits)
next
  case (snoc seg segs)
  let ?full = "segs @ [seg]"
  have deeper: "\<exists>a k. node = NodeRef a \<and> a < length ns \<and> k \<le> length ?full
            \<and> open_loop ns m (take k ?full) = Return (NodeRef a)
            \<and> rest = drop k ?full @ rev tc
            \<and> v = get_prop (metadata (ns ! a)) ''directoryHandle'' \<and> dh_truthy ns a
            \<and> (\<forall>j a'. k < j \<and> j \<le> length ?full \<and> open_loop ns m (take j ?full) = Return (NodeRef a')
                  \<longrightarrow> \<not> dh_truthy ns a')"
    if rec: "closest_loop ns m segs (tc @ [seg]) = Return (Some (v, node, rest))"
      and top: "\<forall>a'. open_loop ns m ?full = Return (NodeRef a') \<longrightarrow> \<not> dh_truthy ns a'"
  proof -
    from snoc.IH[OF rec] obtain a k where ak: "node = NodeRef a" "a < length ns" "k \<le> length segs"
      "open_loop ns m (take k segs) = Return (NodeRef a)" "rest = drop k segs @ rev (tc @ [seg])"
      "v = get_prop (metadata (ns ! a)) ''directoryHandle''" "dh_truthy ns a"
      "\<forall>j a'. k < j \<and> j \<le> length segs \<and> open_loop ns m (take j segs) = Return (NodeRef a')
                  \<longrightarrow> \<not> dh_truthy ns a'" by blast
    have neg: "\<not> dh_truthy ns a'"
      if "k < j" "j \<le> length ?full" "open_loop ns m (take j ?full) = Return (NodeRef a')" for j a'
    proof (cases "j \<le> length segs")
      case True
      with that ak(8) show ?thesis by simp
    next
      case False
      with that have "take j ?full = ?full" by simp
      with that top show ?thesis by simp
    qed
    have tk: "take k ?full = take k segs" "drop k ?full = drop k segs @ [seg]"
      using ak(3) by simp_all
    from neg have negall: "\<forall>j a'. k < j \<and> j \<le> length ?full
        \<and> open_loop ns m (take j ?full) = Return (NodeRef a') \<longrightarrow> \<not> dh_truthy ns a'"
      by blast
    show ?thesis
      apply (rule exI[of _ a], rule exI[of _ k])
      using ak(1-7) negall tk by simp
  qed
  show ?case
  proof (cases "open_loop ns m ?full")
    case (Throw e)
    with snoc.prems show ?thesis by (simp add: closest_loop_snoc)
  next
    case (Return c)
    show ?thesis
    proof (cases "\<exists>a. c = NodeRef a \<and> dh_truthy ns a")
      case True
      then obtain a where a: "c = NodeRef a" "dh_truthy ns a" by blast
      from open_loop_ref_ok[OF assms(1,2) Return] a have al: "a < length ns" by simp
      show ?thesis
        apply (rule exI[of _ a], rule exI[of _ "length ?full"])
        using al snoc.prems Return a by (auto simp add: closest_loop_snoc)
    next
      case False
      with snoc.prems Return
      have rec: "closest_loop ns m segs (tc @ [seg]) = Return (Some (v, node, rest))"
        by (cases c) (simp_all add: closest_loop_snoc split: if_splits)
      from False Return
      have top: "\<forall>a'. open_loop ns m ?full = Return (NodeRef a') \<longrightarrow> \<not> dh_truthy ns a'"
        by simp
      from deeper[OF rec top] show ?thesis .
    qed
  qed
qed

lemma open_loop_throws: "open_loop ns c segs = Throw e \<Longrightarrow> e = TypeError"
proof (induction segs arbitrary: c)
  case Nil
  then show ?case by simp
next
  case (Cons seg segs)
  then show ?case
    by (cases c) (auto simp: open_loop.simps(2) split: if_splits)
qed

lemma open_loop_plain:
  assumes "wf_store ns" "a < length ns" "\<forall>seg \<in> set segs. \<not> inherited seg"
  shows "open_loop ns (NodeRef a) segs = Return JNull \<or> (\<exists>b. open_loop ns (NodeRef a) segs = Return (NodeRef b))"
  using assms(2,3)
proof (induction segs arbitrary: a)
  case Nil
  then show ?case by simp
next
  case (Cons seg segs)
  show ?case
  proof (cases "map_of (children (ns ! a)) seg")
    case None
    with Cons.prems show ?thesis by (simp add: open_loop_Cons)
  next
    case (Some d)
    from wf_store_child[OF assms(1) Cons.prems(1) Some] have "d < length ns" by simp
    from Cons.IH[OF this] Cons.prems(2) Some show ?thesis by (simp add: open_loop_Cons)
  qed
qed

text \<open>A search that meets no handle fails.\<close>

lemma closest_loop_no_handle:
  assumes "\<forall>k \<le> length segs. \<forall>a. open_loop ns m (take k segs) = Return (NodeRef a) \<longrightarrow> \<not> dh_truthy ns a"
  shows "closest_loop ns m segs tc = Return None \<or> closest_loop ns m segs tc = Throw TypeError"
  using assms
proof (induction segs arbitrary: tc rule: rev_induct)
  case Nil
  then show ?case by (cases m) (simp_all add: closest_loop_Nil)
next
  case (snoc seg segs)
  have "\<forall>k \<le> length segs. \<forall>a. open_loop ns m (take k segs) = Return (NodeRef a) \<longrightarrow> \<not> dh_truthy ns a"
  proof (intro allI impI)
    fix k a assume k: "k \<le> length segs" and o: "open_loop ns m (take k segs) = Return (NodeRef a)"
    from k have "take k (segs @ [seg]) = take k segs" by simp
    with snoc.prems k o show "\<not> dh_truthy ns a" by (metis le_SucI length_append_singleton)
  qed
  from snoc.IH[OF this]
  have ih: "closest_loop ns m segs (tc @ [seg]) = Return None
          \<or> closest_loop ns m segs (tc @ [seg]) = Throw TypeError" .
  from snoc.prems have top: "\<forall>a. open_loop ns m (segs @ [seg]) = Return (NodeRef a) \<longrightarrow> \<not> dh_truthy ns a"
    by (metis length_append_singleton order_refl take_all)
  show ?case
  proof (cases "open_loop ns m (segs @ [seg])")
    case (Throw e)
    with open_loop_throws[OF Throw] show ?thesis by (simp add: closest_loop_snoc)
  next
    case (Return c)
    with ih top show ?thesis by (cases c) (simp_all add: closest_loop_snoc)
  qed
qed

lemma closest_loop_no_handle_plain:
  assumes "wf_store ns" "a < length ns" "\<forall>seg \<in> set segs. \<not> inherited seg"
    "\<forall>k \<le> length segs. \<forall>b. open_loop ns (NodeRef a) (take k segs) = Return (NodeRef b) \<longrightarrow> \<not> dh_truthy ns b"
  shows "closest_loop ns (NodeRef a) segs tc = Return None"
  using assms(3,4)
proof (induction segs arbitrary: tc rule: rev_induct)
  case Nil
  then show ?case by (simp add: closest_loop_Nil)
next
  case (snoc seg segs)
  have "\<forall>k \<le> length segs. \<forall>b. open_loop ns (NodeRef a) (take k segs) = Return (NodeRef b) \<longrightarrow> \<not> dh_truthy ns b"
  proof (intro allI impI)
    fix k b assume k: "k \<le> length segs" and o: "open_loop ns (NodeRef a) (take k segs) = Return (NodeRef b)"
    from k have "take k (segs @ [seg]) = take k segs" by simp
    with snoc.prems(2) k o show "\<not> dh_truthy ns b" by (metis le_SucI length_append_singleton)
  qed
  with snoc.IH snoc.prems(1)
  have ih: "closest_loop ns (NodeRef a) segs (tc @ [seg]) = Return None" by simp
  from snoc.prems(2)
  have top: "\<forall>b. open_loop ns (NodeRef a) (segs @ [seg]) = Return (NodeRef b) \<longrightarrow> \<not> dh_truthy ns b"
    by (metis length_append_singleton order_refl take_all)
  from open_loop_plain[OF assms(1,2) snoc.prems(1)] ih top show ?case
    by (auto simp: closest_loop_snoc)
qed

lemma wf_calls_update [simp]: "wf_vfs (s\<lparr>calls := cs\<rparr>) = wf_vfs s"
  by (simp add: wf_vfs_def ids_ok_def)

lemma wf_mount_points_append:
  "wf_vfs s \<Longrightarrow> ref_ok (nodes s) (mroot mp) \<Longrightarrow> wf_vfs (s\<lparr>mount_points := mount_points s @ [mp]\<rparr>)"
  by (simp add: wf_vfs_def ids_ok_def)

lemma mkdir_loop_Cons:
  "mkdir_loop prov s (VHandle h) (NodeRef a) (pdir # rest) =
     (case prov (calls s) h pdir of
        None \<Rightarrow> (Throw ProviderError, s\<lparr>calls := calls s @ [(h, pdir)]\<rparr>)
      | Some new_handler \<Rightarrow>
          (case get_property (children (nodes s ! a)) pdir of
             NodeRef b \<Rightarrow>
               mkdir_loop prov
                 (set_metadata (s\<lparr>calls := calls s @ [(h, pdir)]\<rparr>) b
                    (AList.update ''directoryHandle'' (VHandle new_handler) (metadata (nodes s ! b))))
                 (VHandle new_handler) (NodeRef b) rest
           | _ \<Rightarrow> (Throw TypeError, s\<lparr>calls := calls s @ [(h, pdir)]\<rparr>)))"
  by (simp add: set_metadata_def Let_def split: option.splits jsref.splits)

lemma mkdir_loop_not_handle:
  "(\<forall>h. handler \<noteq> VHandle h) \<Longrightarrow> mkdir_loop prov s handler node (pdir # rest) = (Throw TypeError, s)"
  by (cases handler) simp_all

lemma mkdir_loop_not_node:
  "(\<forall>a. node \<noteq> NodeRef a) \<Longrightarrow>
   mkdir_loop prov s (VHandle h) node (pdir # rest) =
     (case prov (calls s) h pdir of
        None \<Rightarrow> (Throw ProviderError, s\<lparr>calls := calls s @ [(h, pdir)]\<rparr>)
      | Some new_handler \<Rightarrow> (Throw TypeError, s\<lparr>calls := calls s @ [(h, pdir)]\<rparr>))"
  by (cases node) (simp_all add: Let_def split: option.splits)

declare mkdir_loop.simps(2) [simp del]

lemma wf_set_handle:
  assumes "wf_vfs s"
  shows "wf_vfs (set_metadata s b (AList.update ''directoryHandle'' (VHandle nh) (metadata (nodes s ! b))))"
  by (rule wf_set_metadata[OF assms]) (simp_all add: get_prop_update handle_or_undefined_def)

lemma wf_mkdir_loop:
  "wf_vfs s \<Longrightarrow> wf_vfs (snd (mkdir_loop prov s handler node rest))"
proof (induction rest arbitrary: s handler node)
  case Nil
  then show ?case by simp
next
  case (Cons pdir rest)
  show ?case
  proof (cases "\<exists>h. handler = VHandle h")
    case False
    with Cons.prems show ?thesis by (simp add: mkdir_loop_not_handle)
  next
    case True
    then obtain h where h: "handler = VHandle h" by blast
    show ?thesis
    proof (cases "\<exists>a. node = NodeRef a")
      case False
      with Cons.prems h show ?thesis by (simp add: mkdir_loop_not_node split: option.splits)
    next
      case True
      then obtain a where a: "node = NodeRef a" by blast
      let ?s1 = "s\<lparr>calls := calls s @ [(h, pdir)]\<rparr>"
      from Cons.prems have w1: "wf_vfs ?s1" by simp
      have "wf_vfs (snd (mkdir_loop prov
                 (set_metadata ?s1 b (AList.update ''directoryHandle'' (VHandle nh) (metadata (nodes s ! b))))
                 (VHandle nh) (NodeRef b) rest))" for b nh
        using Cons.IH[OF wf_set_handle[OF w1, of b nh]] by simp
      with w1 h a show ?thesis
        by (simp add: mkdir_loop_Cons split: option.splits jsref.splits)
    qed
  qed
qed

lemma folder_loop_Cons:
  "folder_loop s rt (b # bs) =
     (case priv_push s rt (PStr (webkitRelativePath b)) [(''blob'', VBlob b)] of
        (Return (NodeRef a), s1) \<Rightarrow>
          (case parent (nodes s1 ! a) of
             None \<Rightarrow> (False, s1)
           | Some p \<Rightarrow>
               folder_loop
                 (set_metadata s1 p (object_assign (metadata (nodes s1 ! p))
                                     [(''directoryHandle'', handle_value (directoryHandle b))]))
                 rt bs)
      | (_, s1) \<Rightarrow> (False, s1))"
  by (simp add: set_metadata_def split: prod.splits outcome.splits jsref.splits option.splits)

declare folder_loop.simps(2) [simp del]

lemma wf_attach_handle:
  assumes "wf_vfs s"
  shows "wf_vfs (set_metadata s p (object_assign (metadata (nodes s ! p))
                                     [(''directoryHandle'', handle_value ho)]))"
  by (rule wf_set_metadata[OF assms])
    (simp_all add: get_prop_object_assign handle_or_undefined_def handle_value_def split: option.splits)

lemma plain_blob [simp]:
  "plain_metadata [(''blob'', VBlob b)]" "plain_metadata [(''type'', VStr t)]"
  "plain_metadata [(''type'', VStr t), (''blob'', VBlob b)]"
  "plain_metadata [(''blob'', VBlob b), (''type'', VStr t)]"
  by (simp_all add: plain_metadata_def)

lemma priv_push_length:
  assumes "wf_store (nodes s)" "ref_ok (nodes s) rt"
  shows "length (nodes s) \<le> length (nodes (snd (priv_push s rt p md)))"
  using assms
proof (cases rule: priv_push_cases[where p = p and md = md])
  case (returns b s0)
  then show ?thesis by (simp add: pushed_def merge_metadata_eq)
next
  case (throws s0)
  then show ?thesis by (simp add: pushed_def)
qed

lemma wf_folder_loop:
  "wf_vfs s \<Longrightarrow> ref_ok (nodes s) rt \<Longrightarrow>
   wf_vfs (snd (folder_loop s rt bs)) \<and> length (nodes s) \<le> length (nodes (snd (folder_loop s rt bs)))"
proof (induction bs arbitrary: s)
  case Nil
  then show ?case by simp
next
  case (Cons b bs)
  let ?r = "priv_push s rt (PStr (webkitRelativePath b)) [(''blob'', VBlob b)]"
  from Cons.prems have ws: "wf_store (nodes s)" by (simp add: wf_vfs_def)
  have w1: "wf_vfs (snd ?r)" by (rule wf_priv_push[OF Cons.prems]) simp
  have l1: "length (nodes s) \<le> length (nodes (snd ?r))" by (rule priv_push_length[OF ws Cons.prems(2)])
  with Cons.prems(2) have r1: "ref_ok (nodes (snd ?r)) rt" by (rule ref_ok_mono)
  have step: "wf_vfs (snd (folder_loop (set_metadata (snd ?r) p md') rt bs)) \<and>
      length (nodes s) \<le> length (nodes (snd (folder_loop (set_metadata (snd ?r) p md') rt bs)))"
    if "wf_vfs (set_metadata (snd ?r) p md')" for p md'
  proof -
    from r1 have "ref_ok (nodes (set_metadata (snd ?r) p md')) rt" by (rule ref_ok_mono) simp
    from Cons.IH[OF that this] l1 show ?thesis by simp
  qed
  obtain r s1 where rs: "?r = (r, s1)" by (cases ?r)
  with w1 l1 have w: "wf_vfs s1" "length (nodes s) \<le> length (nodes s1)" by simp_all
  show ?case
    using w step[OF wf_attach_handle[OF w1]] rs
    by (auto simp: folder_loop_Cons split: outcome.splits jsref.splits option.splits)
qed

lemma get_mount_in_set: "get_mount mps p = (Some mp, rest) \<Longrightarrow> mp \<in> set mps"
  by (induction mps) (auto split: if_splits)

lemma wf_mount_root:
  "wf_vfs s \<Longrightarrow> get_mount (mount_points s) p = (Some mp, rest) \<Longrightarrow> ref_ok (nodes s) (mroot mp)"
  by (auto simp: wf_vfs_def list_all_iff dest: get_mount_in_set)

lemma priv_push_ref_ok:
  assumes "wf_store (nodes s)" "ref_ok (nodes s) rt" "priv_push s rt p md = (Return r, s1)"
  shows "ref_ok (nodes s1) r"
  using assms(1,2)
proof (cases rule: priv_push_cases[where p = p and md = md])
  case (returns b s0)
  with assms(3) show ?thesis by (auto simp: merge_metadata_eq)
next
  case (throws s0)
  with assms(3) show ?thesis by simp
qed

lemma closest_some_node:
  assumes "wf_vfs s" "ref_ok (nodes s) m"
    "priv_closest_directory_handler_local s m path = Return (Some (v, node, rest))"
  shows "ref_ok (nodes s) node"
proof -
  from assms(1) have "wf_store (nodes s)" by (simp add: wf_vfs_def)
  from closest_loop_some[OF this assms(2) assms(3)[unfolded priv_closest_directory_handler_local_def]]
  show ?thesis by auto
qed

lemma wf_priv_mkdir_local:
  assumes "wf_vfs s" "ref_ok (nodes s) (mroot mp)"
  shows "wf_vfs (snd (priv_mkdir_local prov s mp path))"
proof (cases "priv_closest_directory_handler_local s (mroot mp) path")
  case (Throw e)
  with assms show ?thesis by (simp add: priv_mkdir_local_def)
next
  case (Return found)
  show ?thesis
  proof (cases found)
    case None
    with Return assms show ?thesis by (simp add: priv_mkdir_local_def)
  next
    case (Some t)
    obtain v node rest where t: "t = (v, node, rest)" by (cases t)
    from closest_some_node[OF assms Return[unfolded Some t]] have n: "ref_ok (nodes s) node" .
    have "wf_vfs (snd (priv_push s node (PArr rest) [(''type'', VStr ''folder'')]))"
      by (rule wf_priv_push[OF assms(1) n]) simp
    with Return Some t wf_mkdir_loop show ?thesis
      by (auto simp: priv_mkdir_local_def split: prod.splits outcome.splits)
  qed
qed

lemma wf_priv_write_file_local:
  assumes "wf_vfs s" "ref_ok (nodes s) (mroot mp)"
  shows "wf_vfs (snd (priv_write_file_local s mp path b))"
proof (cases "priv_closest_directory_handler_local s (mroot mp) path")
  case (Throw e)
  with assms show ?thesis by (simp add: priv_write_file_local_def)
next
  case (Return found)
  show ?thesis
  proof (cases found)
    case None
    with Return assms show ?thesis by (simp add: priv_write_file_local_def)
  next
    case (Some t)
    obtain v node rest where t: "t = (v, node, rest)" by (cases t)
    from closest_some_node[OF assms Return[unfolded Some t]] have n: "ref_ok (nodes s) node" .
    have "wf_vfs (snd (priv_push s node (PArr rest) [(''type'', VStr ''file'')]))"
      by (rule wf_priv_push[OF assms(1) n]) simp
    with Return Some t show ?thesis
      by (auto simp: priv_write_file_local_def split: prod.splits outcome.splits)
  qed
qed

lemma wf_root_ref: "wf_vfs s \<Longrightarrow> ref_ok (nodes s) (NodeRef (root s))"
  by (simp add: wf_vfs_def)

lemma wf_mkdir:
  assumes "wf_vfs s"
  shows "wf_vfs (snd (mkdir prov s path))"
proof (cases "get_mount (mount_points s) path")
  case (Pair mo rest)
  show ?thesis
  proof (cases mo)
    case None
    have "wf_vfs (snd (priv_push s (NodeRef (root s)) (PStr rest) [(''type'', VStr ''folder'')]))"
      by (rule wf_priv_push[OF assms wf_root_ref[OF assms]]) simp
    with Pair None show ?thesis by (simp add: mkdir_def priv_mkdir_memfs_def)
  next
    case (Some mp)
    from wf_mount_root[OF assms Pair[unfolded Some]] have "ref_ok (nodes s) (mroot mp)" .
    from wf_priv_mkdir_local[OF assms this] Pair Some assms show ?thesis
      by (simp add: mkdir_def)
  qed
qed

lemma wf_write_file:
  assumes "wf_vfs s"
  shows "wf_vfs (snd (write_file s path f c h))"
proof (cases "get_mount (mount_points s) path")
  case (Pair mo rest)
  show ?thesis
  proof (cases mo)
    case None
    have "wf_vfs (snd (priv_push s (NodeRef (root s)) (PStr rest)
        [(''type'', VStr ''file''), (''blob'', VBlob (make_blob f c h))]))"
      by (rule wf_priv_push[OF assms wf_root_ref[OF assms]]) simp
    with Pair None show ?thesis by (simp add: write_file_def priv_write_file_memfs_def)
  next
    case (Some mp)
    from wf_mount_root[OF assms Pair[unfolded Some]] have "ref_ok (nodes s) (mroot mp)" .
    from wf_priv_write_file_local[OF assms this] Pair Some assms show ?thesis
      by (simp add: write_file_def)
  qed
qed

lemma vfs_open_ref_ok: "wf_vfs s \<Longrightarrow> vfs_open s p = Return r \<Longrightarrow> ref_ok (nodes s) r"
  unfolding vfs_open_def priv_open_def
  by (rule open_loop_ref_ok[of "nodes s" "NodeRef (root s)"]) (simp_all add: wf_vfs_def)

lemma wf_mount_local_file:
  assumes "wf_vfs s"
  shows "wf_vfs (snd (mount_local_file s path picked))"
proof (cases "vfs_open s (PStr path)")
  case (Throw e)
  with assms show ?thesis by (simp add: mount_local_file_def)
next
  case (Return rt)
  from vfs_open_ref_ok[OF assms Return] have rt: "ref_ok (nodes s) rt" .
  from assms have ws: "wf_store (nodes s)" by (simp add: wf_vfs_def)
  show ?thesis
  proof (cases picked)
    case None
    with Return assms show ?thesis by (simp add: mount_local_file_def)
  next
    case (Some b)
    let ?r = "priv_push s rt (PStr (blob_name b)) [(''blob'', VBlob b), (''type'', VStr ''file'')]"
    have w1: "wf_vfs (snd ?r)" by (rule wf_priv_push[OF assms rt]) simp
    obtain r s1 where rs: "?r = (r, s1)" by (cases ?r)
    show ?thesis
    proof (cases r)
      case (Throw e)
      with Return Some rs w1 show ?thesis by (simp add: mount_local_file_def)
    next
      case (Return mount_node)
      from priv_push_ref_ok[OF ws rt rs[unfolded Return]] have "ref_ok (nodes s1) mount_node" .
      with w1 rs have "wf_vfs (s1\<lparr>mount_points := mount_points s1 @
          [\<lparr>mtype = ''local'', mpath = path @ ''/'' @ blob_name b, mroot = mount_node\<rparr>]\<rparr>)"
        by (intro wf_mount_points_append) simp_all
      with \<open>vfs_open s (PStr path) = Return rt\<close> Some rs Return show ?thesis
        by (simp add: mount_local_file_def)
    qed
  qed
qed

lemma get_property_ref_ok:
  "wf_store ns \<Longrightarrow> a < length ns \<Longrightarrow> ref_ok ns (get_property (children (ns ! a)) k)"
  by (auto simp: get_property_def split: option.splits dest: wf_store_child)

lemma wf_mount_local_folder:
  assumes "wf_vfs s"
  shows "wf_vfs (snd (mount_local_folder s path picked))"
proof (cases "vfs_open s (PStr path)")
  case (Throw e)
  with assms show ?thesis by (simp add: mount_local_folder_def)
next
  case (Return rt)
  from vfs_open_ref_ok[OF assms Return] have rt: "ref_ok (nodes s) rt" .
  show ?thesis
  proof (cases picked)
    case None
    with Return assms show ?thesis by (simp add: mount_local_folder_def)
  next
    case (Some blobs)
    from wf_folder_loop[OF assms rt, of blobs]
    have w1: "wf_vfs (snd (folder_loop s rt blobs))"
      and l1: "length (nodes s) \<le> length (nodes (snd (folder_loop s rt blobs)))" by simp_all
    obtain ok s1 where fl: "folder_loop s rt blobs = (ok, s1)" by (cases "folder_loop s rt blobs")
    with w1 l1 have w: "wf_vfs s1" and l: "length (nodes s) \<le> length (nodes s1)" by simp_all
    have "wf_vfs (s1\<lparr>mount_points := mount_points s1 @
          [\<lparr>mtype = ''local'', mpath = mp, mroot = get_property (children (nodes s1 ! r)) k\<rparr>]\<rparr>)"
      if "rt = NodeRef r" for r k mp
    proof (rule wf_mount_points_append[OF w])
      from rt that l have "r < length (nodes s1)" by simp
      with w show "ref_ok (nodes s1)
          (mroot \<lparr>mtype = ''local'', mpath = mp, mroot = get_property (children (nodes s1 ! r)) k\<rparr>)"
        by (simp add: get_property_ref_ok wf_vfs_def)
    qed
    with Return Some fl w show ?thesis
      by (auto simp: mount_local_folder_def Let_def split: jsref.splits bool.splits)
  qed
qed

lemma wf_apply_op: "wf_vfs s \<Longrightarrow> wf_vfs (apply_op prov s op)"
  by (cases op) (simp_all add: wf_mkdir wf_write_file wf_mount_local_file wf_mount_local_folder)

lemma wf_new_vfs: "wf_vfs new_vfs"
  by (simp add: wf_vfs_def new_vfs_def wf_store_def node_ok_def handles_ok_def ids_ok_def id_of_def
      get_prop_def handle_or_undefined_def id_below_def)

lemma run_snoc: "run prov s (ops @ [op]) = apply_op prov (run prov s ops) op"
  by (simp add: run_def)

lemma wf_run: "wf_vfs s \<Longrightarrow> wf_vfs (run prov s ops)"
  by (induction ops rule: rev_induct) (simp_all add: run_snoc wf_apply_op, simp add: run_def)

lemma grows_refl [simp]: "grows s s"
  by (simp add: grows_def)

lemma grows_same_nodes: "nodes s' = nodes s \<Longrightarrow> root s' = root s \<Longrightarrow> grows s s'"
  by (simp add: grows_def)

lemma grows_trans: "grows s s1 \<Longrightarrow> grows s1 s2 \<Longrightarrow> grows s s2"
  unfolding grows_def by (auto intro: prefix_order.trans)

lemma grows_pushed: "pushed S s s' \<Longrightarrow> grows s s'"
  by (simp add: grows_def pushed_def id_of_def)

lemma grows_set_metadata:
  assumes "a < length (nodes s) \<Longrightarrow> get_prop md ''id'' = get_prop (metadata (nodes s ! a)) ''id''"
  shows "grows s (set_metadata s a md)"
  using assms by (auto simp: grows_def set_metadata_nth id_of_def)

lemma grows_merge_metadata:
  assumes "plain_metadata md"
  shows "grows s (merge_metadata s a md)"
  unfolding merge_metadata_eq using plain_metadata_map_of[OF assms]
  by (intro grows_set_metadata) (simp add: get_prop_object_assign)

lemma grows_priv_push:
  assumes "wf_store (nodes s)" "ref_ok (nodes s) rt" "plain_metadata md"
  shows "grows s (snd (priv_push s rt p md))"
  using assms(1,2)
proof (cases rule: priv_push_cases[where p = p and md = md])
  case (returns b s0)
  from grows_trans[OF grows_pushed[OF returns(5)] grows_merge_metadata[OF assms(3), of s0 b]] returns(2)
  show ?thesis by simp
next
  case (throws s0)
  from grows_pushed[OF throws(3)] throws(1) show ?thesis by simp
qed

lemma grows_set_handle:
  "grows s (set_metadata (s\<lparr>calls := cs\<rparr>) b
      (AList.update ''directoryHandle'' (VHandle nh) (metadata (nodes s ! b))))"
proof -
  have "grows (s\<lparr>calls := cs\<rparr>) (set_metadata (s\<lparr>calls := cs\<rparr>) b
      (AList.update ''directoryHandle'' (VHandle nh) (metadata (nodes (s\<lparr>calls := cs\<rparr>) ! b))))"
    by (rule grows_set_metadata) (simp add: get_prop_update)
  then show ?thesis by (simp add: grows_def)
qed

lemma grows_mkdir_loop: "grows s (snd (mkdir_loop prov s handler node rest))"
proof (induction rest arbitrary: s handler node)
  case Nil
  then show ?case by simp
next
  case (Cons pdir rest)
  show ?case
  proof (cases "\<exists>h. handler = VHandle h")
    case False
    then show ?thesis by (simp add: mkdir_loop_not_handle)
  next
    case True
    then obtain h where h: "handler = VHandle h" by blast
    have c: "grows s (s\<lparr>calls := calls s @ [(h, pdir)]\<rparr>)" by (simp add: grows_same_nodes)
    show ?thesis
    proof (cases "\<exists>a. node = NodeRef a")
      case False
      with h c show ?thesis by (simp add: mkdir_loop_not_node split: option.splits)
    next
      case True
      then obtain a where a: "node = NodeRef a" by blast
      have "grows s (snd (mkdir_loop prov
                 (set_metadata (s\<lparr>calls := calls s @ [(h, pdir)]\<rparr>) b
                    (AList.update ''directoryHandle'' (VHandle nh) (metadata (nodes s ! b))))
                 (VHandle nh) (NodeRef b) rest))" for b nh
        by (rule grows_trans[OF grows_set_handle Cons.IH])
      with c h a show ?thesis
        by (simp add: mkdir_loop_Cons split: option.splits jsref.splits)
    qed
  qed
qed

lemma grows_folder_loop:
  "wf_vfs s \<Longrightarrow> ref_ok (nodes s) rt \<Longrightarrow> grows s (snd (folder_loop s rt bs))"
proof (induction bs arbitrary: s)
  case Nil
  then show ?case by simp
next
  case (Cons b bs)
  let ?r = "priv_push s rt (PStr (webkitRelativePath b)) [(''blob'', VBlob b)]"
  from Cons.prems have ws: "wf_store (nodes s)" by (simp add: wf_vfs_def)
  have w1: "wf_vfs (snd ?r)" by (rule wf_priv_push[OF Cons.prems]) simp
  have g1: "grows s (snd ?r)" by (rule grows_priv_push[OF ws Cons.prems(2)]) simp
  have l1: "length (nodes s) \<le> length (nodes (snd ?r))" by (rule priv_push_length[OF ws Cons.prems(2)])
  with Cons.prems(2) have r1: "ref_ok (nodes (snd ?r)) rt" by (rule ref_ok_mono)
  have step: "grows s (snd (folder_loop (set_metadata (snd ?r) p
        (object_assign (metadata (nodes (snd ?r) ! p)) [(''directoryHandle'', handle_value ho)])) rt bs))"
    for p ho
  proof -
    let ?s2 = "set_metadata (snd ?r) p
        (object_assign (metadata (nodes (snd ?r) ! p)) [(''directoryHandle'', handle_value ho)])"
    have g2: "grows (snd ?r) ?s2"
      by (rule grows_set_metadata) (simp add: get_prop_object_assign)
    have "ref_ok (nodes ?s2) rt" using r1 by (rule ref_ok_mono) simp
    from Cons.IH[OF wf_attach_handle[OF w1] this] have "grows ?s2 (snd (folder_loop ?s2 rt bs))" .
    from grows_trans[OF g1 grows_trans[OF g2 this]] show ?thesis .
  qed
  obtain r s1 where rs: "?r = (r, s1)" by (cases ?r)
  with g1 have g: "grows s s1" by simp
  show ?case
    using g step rs
    by (auto simp: folder_loop_Cons split: outcome.splits jsref.splits option.splits)
qed

section \<open>Mount resolution\<close>

lemma get_mount_none:
  "fst (get_mount mps p) = None \<longleftrightarrow> (\<forall>m \<in> set mps. \<not> prefix (mpath m) p)"
  by (induction mps) auto

lemma get_mount_none_rest: "fst (get_mount mps p) = None \<Longrightarrow> snd (get_mount mps p) = p"
  by (induction mps) (auto split: if_splits)

lemma get_mount_some:
  "get_mount mps p = (Some m, rest) \<Longrightarrow>
     \<exists>i < length mps. mps ! i = m \<and> prefix (mpath m) p \<and> p = mpath m @ rest
        \<and> (\<forall>j < i. \<not> prefix (mpath (mps ! j)) p)"
proof (induction mps)
  case Nil
  then show ?case by simp
next
  case (Cons mp mps)
  show ?case
  proof (cases "prefix (mpath mp) p")
    case True
    with Cons.prems have "m = mp" "rest = drop (length (mpath mp)) p" by auto
    with True have "(mp # mps) ! 0 = m \<and> prefix (mpath m) p \<and> p = mpath m @ rest"
      by (auto simp: prefix_def)
    then show ?thesis by (intro exI[of _ 0]) simp
  next
    case False
    with Cons.prems have "get_mount mps p = (Some m, rest)" by simp
    from Cons.IH[OF this] obtain i where i: "i < length mps" "mps ! i = m" "prefix (mpath m) p"
      "p = mpath m @ rest" "\<forall>j < i. \<not> prefix (mpath (mps ! j)) p" by blast
    have "\<forall>j < Suc i. \<not> prefix (mpath ((mp # mps) ! j)) p"
      using False i(5) by (auto simp: less_Suc_eq_0_disj)
    with i show ?thesis by (intro exI[of _ "Suc i"]) simp
  qed
qed

text \<open>
  C3. \<^verbatim>\<open>get_mount\<close> scans the mount points in registration order and returns the first
  one whose path is a raw string prefix of the queried path, with the query minus that
  prefix; when no mount point's path is a prefix it returns no mount with the original
  path. With one mount registered at \<^verbatim>\<open>/docs\<close>, \<^verbatim>\<open>/docs/readme\<close> resolves to that mount
  and \<^verbatim>\<open>/readme\<close>, and \<^verbatim>\<open>/docset\<close> matches the mount too (and leaves \<^verbatim>\<open>et\<close>).
\<close>

theorem get_mount_first_prefix:
  "(case get_mount mps p of
      (None, rest) \<Rightarrow> rest = p \<and> (\<forall>m \<in> set mps. \<not> prefix (mpath m) p)
    | (Some m, rest) \<Rightarrow>
        (\<exists>i < length mps. mps ! i = m \<and> prefix (mpath m) p \<and> p = mpath m @ rest
           \<and> (\<forall>j < i. \<not> prefix (mpath (mps ! j)) p)))
   \<and> (mpath d = ''/docs'' \<longrightarrow>
        get_mount [d] ''/docs/readme'' = (Some d, ''/readme'')
        \<and> get_mount [d] ''/docset'' = (Some d, ''et''))"
proof -
  have "case get_mount mps p of
      (None, rest) \<Rightarrow> rest = p \<and> (\<forall>m \<in> set mps. \<not> prefix (mpath m) p)
    | (Some m, rest) \<Rightarrow>
        (\<exists>i < length mps. mps ! i = m \<and> prefix (mpath m) p \<and> p = mpath m @ rest
           \<and> (\<forall>j < i. \<not> prefix (mpath (mps ! j)) p))"
  proof (cases "get_mount mps p")
    case (Pair mo rest)
    show ?thesis
    proof (cases mo)
      case None
      with Pair get_mount_none[of mps p] get_mount_none_rest[of mps p] show ?thesis by simp
    next
      case (Some m)
      with Pair get_mount_some[of mps p m rest] show ?thesis by simp
    qed
  qed
  moreover have "mpath d = ''/docs'' \<longrightarrow>
        get_mount [d] ''/docs/readme'' = (Some d, ''/readme'')
        \<and> get_mount [d] ''/docset'' = (Some d, ''et'')"
    by simp
  ultimately show ?thesis by blast
qed

theorem get_mount_first_prefix_witness:
  "get_mount [src_mount, docs_mount] ''/docs/readme'' = (Some docs_mount, ''/readme'')
   \<and> [src_mount, docs_mount] ! 1 = docs_mount
   \<and> \<not> prefix (mpath src_mount) ''/docs/readme''
   \<and> get_mount [src_mount, docs_mount] ''/tmp'' = (None, ''/tmp'')
   \<and> mpath docs_mount = ''/docs''
   \<and> get_mount [docs_mount] ''/docset'' = (Some docs_mount, ''et'')"
  using get_mount_first_prefix [where mps = "[src_mount, docs_mount]" and p = "''/docs/readme''"
      and d = docs_mount]
  by (simp add: docs_mount_def src_mount_def)

section \<open>Segmentless paths\<close>

lemma split_slash_only_slashes:
  "set p \<subseteq> {CHR ''/''} \<Longrightarrow> split_slash p = replicate (Suc (length p)) []"
  by (induction p) auto

lemma normalize_only_slashes: "set p \<subseteq> {CHR ''/''} \<Longrightarrow> normalize_path (PStr p) = []"
  by (simp add: split_slash_only_slashes)

text \<open>
  C10. On the empty path, on \<^verbatim>\<open>/\<close> and on every string that consists of slashes only,
  \<^verbatim>\<open>open\<close> returns the root node itself and \<^verbatim>\<open>ls\<close> returns the names of the root's
  children; neither returns the not-found signal.
\<close>

theorem segmentless_path_is_root:
  assumes "set p \<subseteq> {CHR ''/''}"
  shows "vfs_open s (PStr p) = Return (NodeRef (root s))
       \<and> ls s (PStr p) = Return (Some (child_names (nodes s) (root s)))"
  using normalize_only_slashes[OF assms]
  by (simp add: vfs_open_def priv_open_def ls_def)

theorem segmentless_path_is_root_witness:
  "set ''//'' \<subseteq> {CHR ''/''}
   \<and> vfs_open (snd (mkdir refusing_provider new_vfs ''/a'')) (PStr ''//'') = Return (NodeRef 0)
   \<and> ls (snd (mkdir refusing_provider new_vfs ''/a'')) (PStr ''//'') = Return (Some [''a''])"
proof -
  have h: "set ''//'' \<subseteq> {CHR ''/''}" by simp
  have s: "snd (mkdir refusing_provider new_vfs ''/a'') =
      \<lparr>node_id = 2, root = 0,
       nodes = [\<lparr>name = '''', metadata = [(''id'', VNum 0)], parent = None, children = [(''a'', 1)]\<rparr>,
                \<lparr>name = ''a'', metadata = [(''id'', VNum 1), (''type'', VStr ''folder'')],
                 parent = Some 0, children = []\<rparr>],
       mount_points = [], calls = []\<rparr>"
    by (simp add: vfs_eval)
  have c: "child_names (nodes (snd (mkdir refusing_provider new_vfs ''/a''))) 0 = [''a'']"
    unfolding s by (simp add: vfs_eval)
  show ?thesis
    using h segmentless_path_is_root [OF h, of "snd (mkdir refusing_provider new_vfs ''/a'')"] c
    by (simp add: s)
qed

lemma proj_vfs_eq:
  "proj_vfs =
     \<lparr>node_id = 3, root = 0,
      nodes =
        [\<lparr>name = [], metadata = [(''id'', VNum 0)], parent = None, children = [(''proj'', 1)]\<rparr>,
         \<lparr>name = ''proj'',
          metadata = [(''id'', VNum 1), (''type'', VStr ''folder''), (''directoryHandle'', VHandle (Handle 0))],
          parent = Some 0, children = [(''x.txt'', 2)]\<rparr>,
         \<lparr>name = ''x.txt'', metadata = [(''id'', VNum 2), (''type'', VStr ''file''), (''blob'', VBlob x_txt)],
          parent = Some 1, children = []\<rparr>],
      mount_points = [\<lparr>mtype = ''local'', mpath = ''/proj'', mroot = NodeRef 1\<rparr>],
      calls = []\<rparr>"
  by (simp add: proj_vfs_def vfs_eval folder_loop.simps(2) x_txt_def)

lemma file_vfs_eq:
  "file_vfs =
     \<lparr>node_id = 2, root = 0,
      nodes =
        [\<lparr>name = [], metadata = [(''id'', VNum 0)], parent = None, children = [(''x.txt'', 1)]\<rparr>,
         \<lparr>name = ''x.txt'', metadata = [(''id'', VNum 1), (''type'', VStr ''file''), (''blob'', VBlob x_txt)],
          parent = Some 0, children = []\<rparr>],
      mount_points = [\<lparr>mtype = ''local'', mpath = ''/x.txt'', mroot = NodeRef 1\<rparr>],
      calls = []\<rparr>"
  by (simp add: file_vfs_def vfs_eval x_txt_def)

section \<open>Local mounts without a writable ancestor\<close>

lemma nested_vfs_eq:
  "nested_vfs =
     \<lparr>node_id = 4, root = 0,
      nodes =
        [\<lparr>name = [], metadata = [(''id'', VNum 0)], parent = None, children = [(''x.txt'', 1)]\<rparr>,
         \<lparr>name = ''x.txt'', metadata = [(''id'', VNum 1), (''type'', VStr ''file''), (''blob'', VBlob x_txt)],
          parent = Some 0, children = [(''proj'', 2)]\<rparr>,
         \<lparr>name = ''proj'',
          metadata = [(''id'', VNum 2), (''type'', VStr ''folder''), (''directoryHandle'', VHandle (Handle 0))],
          parent = Some 1, children = [(''x.txt'', 3)]\<rparr>,
         \<lparr>name = ''x.txt'', metadata = [(''id'', VNum 3), (''type'', VStr ''file''), (''blob'', VBlob x_txt)],
          parent = Some 2, children = []\<rparr>],
      mount_points = [\<lparr>mtype = ''local'', mpath = ''/x.txt'', mroot = NodeRef 1\<rparr>,
                      \<lparr>mtype = ''local'', mpath = ''/x.txt/proj'', mroot = NodeRef 2\<rparr>],
      calls = []\<rparr>"
  by (simp add: nested_vfs_def run_def vfs_eval folder_loop.simps(2) x_txt_def)

text \<open>
  C2, as the claim states it, fails: the search for the closest handle starts at the
  target itself, not at its parent. In \<open>nested_vfs\<close> the path \<^verbatim>\<open>/x.txt/proj\<close> falls under
  the mount point \<^verbatim>\<open>/x.txt\<close>, whose root is the only ancestor on the walk and carries no
  handle; the target \<^verbatim>\<open>proj\<close> carries one. \<^verbatim>\<open>mkdir\<close> returns the target node, and
  \<^verbatim>\<open>write_file\<close> turns the folder \<^verbatim>\<open>proj\<close> into a node of type \<^verbatim>\<open>file\<close>.
\<close>

theorem local_write_with_handle_on_target_succeeds:
  "get_mount (mount_points nested_vfs) ''/x.txt/proj''
     = (Some \<lparr>mtype = ''local'', mpath = ''/x.txt'', mroot = NodeRef 1\<rparr>, ''/proj'')
   \<and> get_prop (metadata (nodes nested_vfs ! 1)) ''directoryHandle'' = VUndefined
   \<and> priv_open nested_vfs (NodeRef 1) (PStr ''/proj'') = Return (NodeRef 2)
   \<and> parent (nodes nested_vfs ! 2) = Some 1
   \<and> get_prop (metadata (nodes nested_vfs ! 2)) ''type'' = VStr ''folder''
   \<and> fst (mkdir refusing_provider nested_vfs ''/x.txt/proj'') = Return (NodeRef 2)
   \<and> fst (write_file nested_vfs ''/x.txt/proj'' ''n.txt'' ''hello'' None) = Return JUndefined
   \<and> get_prop (metadata (nodes (snd (write_file nested_vfs ''/x.txt/proj'' ''n.txt'' ''hello'' None)) ! 2))
        ''type'' = VStr ''file''"
  by (simp add: nested_vfs_eq vfs_eval)

text \<open>
  When the mount root is a node of a well-formed state and no segment names an inherited
  property, the search ends without an exception.
\<close>

lemma closest_loop_plain_returns:
  assumes "wf_store ns" "a < length ns" "\<forall>seg \<in> set segs. \<not> inherited seg"
  shows "\<exists>found. closest_loop ns (NodeRef a) segs tc = Return found"
  using assms(3)
proof (induction segs arbitrary: tc rule: rev_induct)
  case Nil
  then show ?case by (simp add: closest_loop_Nil)
next
  case (snoc seg segs)
  from snoc.prems have ni: "\<forall>seg \<in> set segs. \<not> inherited seg" by simp
  from snoc.IH[OF ni] obtain found where
    ih: "closest_loop ns (NodeRef a) segs (tc @ [seg]) = Return found" by blast
  from open_loop_plain[OF assms(1,2) snoc.prems] ih show ?case
    by (auto simp: closest_loop_snoc)
qed

lemma local_search_returns:
  assumes "wf_vfs s" "get_mount (mount_points s) path = (Some mp, rest)" "mroot mp = NodeRef a"
    "\<forall>seg \<in> set (normalize_path (PStr rest)). \<not> inherited seg"
  shows "\<exists>found. priv_closest_directory_handler_local s (mroot mp) rest = Return found"
proof -
  from assms(1) have ws: "wf_store (nodes s)" by (simp add: wf_vfs_def)
  from wf_mount_root[OF assms(1,2)] assms(3) have "a < length (nodes s)" by simp
  from closest_loop_plain_returns[OF ws this assms(4)] assms(3) show ?thesis
    by (simp add: priv_closest_directory_handler_local_def)
qed

text \<open>
  C2, amended. Under a local mount, when no node on the walk from the mount root to the
  target carries a truthy \<^verbatim>\<open>directoryHandle\<close>, the mount root and the target node itself
  included, and the closest-handle search ends without an exception, the search finds
  nothing, \<^verbatim>\<open>mkdir\<close> and \<^verbatim>\<open>write_file\<close> return the not-found signal \<^verbatim>\<open>null\<close>, and the whole
  state is left as it was: no node is created or changed.
\<close>

theorem local_write_without_handle_fails:
  assumes "get_mount (mount_points s) path = (Some mp, rest)" and "mtype mp = ''local''"
    and "\<forall>k \<le> length (normalize_path (PStr rest)). \<forall>a.
           priv_open s (mroot mp) (PArr (take k (normalize_path (PStr rest)))) = Return (NodeRef a)
           \<longrightarrow> \<not> truthy (get_prop (metadata (nodes s ! a)) ''directoryHandle'')"
    and "priv_closest_directory_handler_local s (mroot mp) rest = Return found"
  shows "found = None
       \<and> mkdir prov s path = (Return JNull, s)
       \<and> write_file s path f c h = (Return JNull, s)"
proof -
  let ?segs = "normalize_path (PStr rest)"
  from assms(3) have nh: "\<forall>k \<le> length ?segs. \<forall>a.
      open_loop (nodes s) (mroot mp) (take k ?segs) = Return (NodeRef a) \<longrightarrow> \<not> dh_truthy (nodes s) a"
    by (simp add: priv_open_def dh_truthy_def)
  from closest_loop_no_handle[OF nh, of "[]"] assms(4)
  have none: "found = None"
    by (simp add: priv_closest_directory_handler_local_def)
  have mk: "mkdir prov s path = priv_mkdir_local prov s mp rest"
    and wr: "write_file s path f c h = priv_write_file_local s mp rest (make_blob f c h)"
    using assms(1,2) by (simp_all add: mkdir_def write_file_def)
  from assms(4) none show ?thesis
    unfolding mk wr by (simp add: priv_mkdir_local_def priv_write_file_local_def)
qed

theorem local_write_without_handle_fails_witness:
  "get_mount (mount_points file_vfs) ''/x.txt/sub'' =
      (Some \<lparr>mtype = ''local'', mpath = ''/x.txt'', mroot = NodeRef 1\<rparr>, ''/sub'')
   \<and> priv_open file_vfs (NodeRef 1) (PArr []) = Return (NodeRef 1)
   \<and> \<not> truthy (get_prop (metadata (nodes file_vfs ! 1)) ''directoryHandle'')
   \<and> priv_open file_vfs (NodeRef 1) (PArr [''sub'']) = Return JNull
   \<and> priv_closest_directory_handler_local file_vfs (NodeRef 1) ''/sub'' = Return None
   \<and> mkdir granting_provider file_vfs ''/x.txt/sub'' = (Return JNull, file_vfs)
   \<and> write_file file_vfs ''/x.txt/sub'' ''n.txt'' ''hello'' None = (Return JNull, file_vfs)"
proof -
  let ?mp = "\<lparr>mtype = ''local'', mpath = ''/x.txt'', mroot = NodeRef 1\<rparr>"
  have m: "get_mount (mount_points file_vfs) ''/x.txt/sub'' = (Some ?mp, ''/sub'')"
    by (simp add: file_vfs_eq)
  have t: "mtype ?mp = ''local''" by simp
  have n: "normalize_path (PStr ''/sub'') = [''sub'']" by simp
  have o0: "priv_open file_vfs (NodeRef 1) (PArr []) = Return (NodeRef 1)"
    and o1: "priv_open file_vfs (NodeRef 1) (PArr [''sub'']) = Return JNull"
    and d: "\<not> truthy (get_prop (metadata (nodes file_vfs ! 1)) ''directoryHandle'')"
    by (simp_all add: file_vfs_eq vfs_eval)
  have walk: "\<forall>k \<le> length (normalize_path (PStr ''/sub'')). \<forall>a.
           priv_open file_vfs (mroot ?mp) (PArr (take k (normalize_path (PStr ''/sub'')))) = Return (NodeRef a)
           \<longrightarrow> \<not> truthy (get_prop (metadata (nodes file_vfs ! a)) ''directoryHandle'')"
  proof (intro allI impI)
    fix k a
    assume k: "k \<le> length (normalize_path (PStr ''/sub''))"
      and o: "priv_open file_vfs (mroot ?mp) (PArr (take k (normalize_path (PStr ''/sub'')))) = Return (NodeRef a)"
    from k n have "k = 0 \<or> k = 1" by auto
    then show "\<not> truthy (get_prop (metadata (nodes file_vfs ! a)) ''directoryHandle'')"
      using o o0 o1 d n by auto
  qed
  have sr: "priv_closest_directory_handler_local file_vfs (mroot ?mp) ''/sub'' = Return None"
    by (simp add: file_vfs_eq vfs_eval)
  from local_write_without_handle_fails[OF m t walk sr, of granting_provider "''n.txt''" "''hello''" None]
  have "mkdir granting_provider file_vfs ''/x.txt/sub'' = (Return JNull, file_vfs)
      \<and> write_file file_vfs ''/x.txt/sub'' ''n.txt'' ''hello'' None = (Return JNull, file_vfs)"
    by simp
  with m o0 o1 d sr show ?thesis by simp
qed

lemma priv_push_returns:
  assumes "wf_store (nodes s)" "a < length (nodes s)" "\<forall>seg \<in> set (normalize_path p). \<not> inherited seg"
  obtains b s0 where
      "push_loop s (NodeRef a) (normalize_path p) = (Return (NodeRef b), s0)"
      "priv_push s (NodeRef a) p md = (Return (NodeRef b), merge_metadata s0 b md)"
      "b < length (nodes s0)" "wf_store (nodes s0)" "pushed (set (normalize_path p)) s s0"
      "open_loop (nodes s0) (NodeRef a) (normalize_path p) = Return (NodeRef b)"
proof -
  from push_loop_returns[OF assms] obtain b s0 where
    run: "push_loop s (NodeRef a) (normalize_path p) = (Return (NodeRef b), s0)" by blast
  from assms(2) have ok: "ref_ok (nodes s) (NodeRef a)" by simp
  from push_loop_props[OF assms(1) ok run subset_refl]
  have "wf_store (nodes s0)" "pushed (set (normalize_path p)) s s0" "b < length (nodes s0)"
    "open_loop (nodes s0) (NodeRef a) (normalize_path p) = Return (NodeRef b)" by simp_all
  moreover from run have "priv_push s (NodeRef a) p md = (Return (NodeRef b), merge_metadata s0 b md)"
    by (simp add: priv_push_def)
  ultimately show thesis using run by (intro that)
qed

lemma open_loop_set_metadata:
  assumes "wf_store (nodes s)" "ref_ok (nodes s) c" "open_loop (nodes s) c segs = Return (NodeRef b)"
  shows "open_loop (nodes (set_metadata s a md)) c segs = Return (NodeRef b)"
  by (rule open_loop_mono[OF assms]) simp

section \<open>Local writes return nothing\<close>

text \<open>
  C9. \<^verbatim>\<open>_write_file_local\<close> has no \<^verbatim>\<open>return\<close> after its push, so a \<^verbatim>\<open>write_file\<close> under
  a local mount never yields a node: with the mount \<^verbatim>\<open>/proj\<close> whose root carries a
  handle, the search for \<^verbatim>\<open>/proj/sub\<close> succeeds and the node \<^verbatim>\<open>sub\<close> is created, yet
  the call yields \<^verbatim>\<open>undefined\<close>, where \<^verbatim>\<open>mkdir\<close> on the same path returns the node.
\<close>

theorem write_file_local_returns_undefined:
  "fst (priv_write_file_local s mp rest b) \<noteq> Return (NodeRef a)
   \<and> priv_closest_directory_handler_local proj_vfs (NodeRef 1) ''/sub''
        = Return (Some (VHandle (Handle 0), NodeRef 1, [''sub'']))
   \<and> fst (write_file proj_vfs ''/proj/sub'' ''n.txt'' ''hello'' None) = Return JUndefined
   \<and> vfs_open (snd (write_file proj_vfs ''/proj/sub'' ''n.txt'' ''hello'' None)) (PStr ''/proj/sub'')
        = Return (NodeRef 3)
   \<and> fst (mkdir granting_provider proj_vfs ''/proj/sub'') = Return (NodeRef 3)"
proof -
  have "fst (priv_write_file_local s mp rest b) \<noteq> Return (NodeRef a)"
    by (auto simp: priv_write_file_local_def split: outcome.splits option.splits prod.splits)
  moreover have "priv_closest_directory_handler_local proj_vfs (NodeRef 1) ''/sub''
        = Return (Some (VHandle (Handle 0), NodeRef 1, [''sub'']))"
    by (simp add: proj_vfs_eq vfs_eval)
  moreover have "write_file proj_vfs ''/proj/sub'' ''n.txt'' ''hello'' None =
      (Return JUndefined,
        \<lparr>node_id = 4, root = 0,
      nodes =
        [\<lparr>name = [], metadata = [(''id'', VNum 0)], parent = None, children = [(''proj'', 1)]\<rparr>,
         \<lparr>name = ''proj'',
          metadata = [(''id'', VNum 1), (''type'', VStr ''folder''), (''directoryHandle'', VHandle (Handle 0))],
          parent = Some 0, children = [(''x.txt'', 2), (''sub'', 3)]\<rparr>,
         \<lparr>name = ''x.txt'', metadata = [(''id'', VNum 2), (''type'', VStr ''file''), (''blob'', VBlob x_txt)],
          parent = Some 1, children = []\<rparr>,
         \<lparr>name = ''sub'', metadata = [(''id'', VNum 3), (''type'', VStr ''file'')],
          parent = Some 1, children = []\<rparr>],
      mount_points = [\<lparr>mtype = ''local'', mpath = ''/proj'', mroot = NodeRef 1\<rparr>],
      calls = []\<rparr>)"
    by (simp add: proj_vfs_eq vfs_eval)
  moreover have "fst (mkdir granting_provider proj_vfs ''/proj/sub'') = Return (NodeRef 3)"
    by (simp add: proj_vfs_eq vfs_eval mkdir_loop.simps(2) granting_provider_def)
  ultimately show ?thesis by (simp add: vfs_eval)
qed

section \<open>Writing a file in memory\<close>

text \<open>
  C5, as the claim states it, fails: \<^verbatim>\<open>write_file("/a", "note.txt", "hello")\<close> pushes the
  path \<^verbatim>\<open>/a\<close> itself. Afterwards \<^verbatim>\<open>/a/note.txt\<close> does not resolve; \<^verbatim>\<open>/a\<close> is the file
  node, and the file name is kept only as the name of its blob.
\<close>

theorem write_file_creates_no_child:
  "vfs_open (snd (write_file new_vfs ''/a'' ''note.txt'' ''hello'' None)) (PStr ''/a/note.txt'') = Return JNull
   \<and> vfs_open (snd (write_file new_vfs ''/a'' ''note.txt'' ''hello'' None)) (PStr ''/a'') = Return (NodeRef 1)
   \<and> get_prop (metadata (nodes (snd (write_file new_vfs ''/a'' ''note.txt'' ''hello'' None)) ! 1)) ''type''
        = VStr ''file''
   \<and> children (nodes (snd (write_file new_vfs ''/a'' ''note.txt'' ''hello'' None)) ! 1) = []"
  by (simp add: vfs_eval)

text \<open>
  C5, amended. On a path that no mount point matches and whose segments are not names
  inherited from \<^verbatim>\<open>Object.prototype\<close>, \<^verbatim>\<open>write_file(path, fileName, content, hint)\<close> returns
  the node that \<^verbatim>\<open>path\<close> itself resolves to afterwards. That node has type \<^verbatim>\<open>file\<close> and
  carries the blob built from the content, whose name is \<^verbatim>\<open>fileName\<close>. Every node the call
  creates is named by a segment of \<^verbatim>\<open>path\<close>: the file name is not appended to the path, and
  a node named \<^verbatim>\<open>fileName\<close> is created only where \<^verbatim>\<open>fileName\<close> is itself a segment of
  \<^verbatim>\<open>path\<close>.
\<close>

theorem write_file_memfs_pushes_path:
  assumes "wf_vfs s" and "get_mount (mount_points s) path = (None, rest)"
    and "\<forall>seg \<in> set (normalize_path (PStr path)). \<not> inherited seg"
  shows "\<exists>a s'. write_file s path file_name content hint = (Return (NodeRef a), s')
           \<and> vfs_open s' (PStr path) = Return (NodeRef a)
           \<and> get_prop (metadata (nodes s' ! a)) ''type'' = VStr ''file''
           \<and> get_prop (metadata (nodes s' ! a)) ''blob'' = VBlob (make_blob file_name content hint)
           \<and> blob_name (make_blob file_name content hint) = file_name
           \<and> blob_content (make_blob file_name content hint) = content
           \<and> (\<forall>b. length (nodes s) \<le> b \<and> b < length (nodes s')
                 \<longrightarrow> name (nodes s' ! b) \<in> set (normalize_path (PStr path)))
           \<and> (file_name \<notin> set (normalize_path (PStr path))
                 \<longrightarrow> (\<forall>b. length (nodes s) \<le> b \<and> b < length (nodes s')
                        \<longrightarrow> name (nodes s' ! b) \<noteq> file_name))"
proof -
  let ?md = "[(''type'', VStr ''file''), (''blob'', VBlob (make_blob file_name content hint))]"
  from assms(2) get_mount_none_rest[of "mount_points s" path] have rest: "rest = path" by simp
  from assms(1) have ws: "wf_store (nodes s)" and r: "root s < length (nodes s)"
    by (simp_all add: wf_vfs_def)
  from ws r assms(3) obtain b s0 where
    p: "priv_push s (NodeRef (root s)) (PStr path) ?md = (Return (NodeRef b), merge_metadata s0 b ?md)"
      "b < length (nodes s0)" "wf_store (nodes s0)" "pushed (set (normalize_path (PStr path))) s s0"
      "open_loop (nodes s0) (NodeRef (root s)) (normalize_path (PStr path)) = Return (NodeRef b)"
    by (rule priv_push_returns[where p = "PStr path" and md = ?md])
  let ?s' = "merge_metadata s0 b ?md"
  from p(4) have len: "length (nodes s) \<le> length (nodes s0)" and rt: "root s0 = root s"
    by (simp_all add: pushed_def)
  have w: "write_file s path file_name content hint = (Return (NodeRef b), ?s')"
    using assms(2) rest p(1) by (simp add: write_file_def priv_write_file_memfs_def)
  have o: "vfs_open ?s' (PStr path) = Return (NodeRef b)"
    unfolding vfs_open_def priv_open_def merge_metadata_eq
    using open_loop_set_metadata[OF p(3) _ p(5)] r len rt by simp
  have md: "metadata (nodes ?s' ! b) =
      object_assign (object_assign (metadata (nodes s0 ! b)) [(''type'', VStr ''file'')]) ?md"
    using p(2) by (simp add: merge_metadata_eq set_metadata_nth)
  have new: "name (nodes ?s' ! c) \<in> set (normalize_path (PStr path))"
    if "length (nodes s) \<le> c \<and> c < length (nodes ?s')" for c
  proof -
    from that have c: "c < length (nodes s0)" by (simp add: merge_metadata_eq)
    with p(4) that have "name (nodes s0 ! c) \<in> set (normalize_path (PStr path))"
      by (simp add: pushed_def)
    with c show ?thesis by (simp add: merge_metadata_eq)
  qed
  from new have newall: "\<forall>c. length (nodes s) \<le> c \<and> c < length (nodes ?s')
      \<longrightarrow> name (nodes ?s' ! c) \<in> set (normalize_path (PStr path))" by blast
  have ty: "get_prop (metadata (nodes ?s' ! b)) ''type'' = VStr ''file''"
    and bl: "get_prop (metadata (nodes ?s' ! b)) ''blob'' = VBlob (make_blob file_name content hint)"
    by (simp_all add: md get_prop_object_assign)
  have nm: "blob_name (make_blob file_name content hint) = file_name"
    "blob_content (make_blob file_name content hint) = content"
    by (simp_all add: make_blob_def)
  have nofile: "file_name \<notin> set (normalize_path (PStr path))
      \<longrightarrow> (\<forall>c. length (nodes s) \<le> c \<and> c < length (nodes ?s') \<longrightarrow> name (nodes ?s' ! c) \<noteq> file_name)"
  proof (intro impI allI)
    fix c
    assume nf: "file_name \<notin> set (normalize_path (PStr path))"
      and c: "length (nodes s) \<le> c \<and> c < length (nodes ?s')"
    from new[OF c] have "name (nodes ?s' ! c) \<in> set (normalize_path (PStr path))" .
    with nf show "name (nodes ?s' ! c) \<noteq> file_name" by auto
  qed
  have "write_file s path file_name content hint = (Return (NodeRef b), ?s')
           \<and> vfs_open ?s' (PStr path) = Return (NodeRef b)
           \<and> get_prop (metadata (nodes ?s' ! b)) ''type'' = VStr ''file''
           \<and> get_prop (metadata (nodes ?s' ! b)) ''blob'' = VBlob (make_blob file_name content hint)
           \<and> blob_name (make_blob file_name content hint) = file_name
           \<and> blob_content (make_blob file_name content hint) = content
           \<and> (\<forall>c. length (nodes s) \<le> c \<and> c < length (nodes ?s')
                 \<longrightarrow> name (nodes ?s' ! c) \<in> set (normalize_path (PStr path)))
           \<and> (file_name \<notin> set (normalize_path (PStr path))
                 \<longrightarrow> (\<forall>c. length (nodes s) \<le> c \<and> c < length (nodes ?s')
                        \<longrightarrow> name (nodes ?s' ! c) \<noteq> file_name))"
    by (intro conjI) (rule w o ty bl nm newall nofile)+
  then show ?thesis
    by (intro exI[of _ b] exI[of _ ?s'])
qed

lemma make_blob_lower_cases_type:
  "make_blob ''note.txt'' ''hello'' (Some ''Text/Plain'') =
     \<lparr>blob_name = ''note.txt'', blob_content = ''hello'', blob_type = ''text/plain'',
      webkitRelativePath = [], directoryHandle = None\<rparr>"
  by (simp add: make_blob_def blob_type_of_def ascii_lower_def)

theorem write_file_memfs_pushes_path_witness:
  "wf_vfs new_vfs \<and> get_mount (mount_points new_vfs) ''/a'' = (None, ''/a'')
   \<and> \<not> inherited ''a''
   \<and> write_file new_vfs ''/a'' ''note.txt'' ''hello'' (Some ''Text/Plain'') =
       (Return (NodeRef 1),
        \<lparr>node_id = 2, root = 0,
         nodes = [\<lparr>name = [], metadata = [(''id'', VNum 0)], parent = None, children = [(''a'', 1)]\<rparr>,
                  \<lparr>name = ''a'',
                   metadata = [(''id'', VNum 1), (''type'', VStr ''file''),
                               (''blob'', VBlob
                                  \<lparr>blob_name = ''note.txt'', blob_content = ''hello'', blob_type = ''text/plain'',
                                   webkitRelativePath = [], directoryHandle = None\<rparr>)],
                   parent = Some 0, children = []\<rparr>],
         mount_points = [], calls = []\<rparr>)
   \<and> vfs_open (snd (write_file new_vfs ''/a'' ''note.txt'' ''hello'' (Some ''Text/Plain''))) (PStr ''/a'')
       = Return (NodeRef 1)
   \<and> name (nodes (snd (write_file new_vfs ''/a'' ''note.txt'' ''hello'' (Some ''Text/Plain''))) ! 1) = ''a''"
proof -
  let ?w = "write_file new_vfs ''/a'' ''note.txt'' ''hello'' (Some ''Text/Plain'')"
  have m: "get_mount (mount_points new_vfs) ''/a'' = (None, ''/a'')" by (simp add: new_vfs_def)
  have i: "\<forall>seg \<in> set (normalize_path (PStr ''/a'')). \<not> inherited seg"
    by (simp add: inherited_def object_prototype_names_def)
  have e: "?w =
       (Return (NodeRef 1),
        \<lparr>node_id = 2, root = 0,
         nodes = [\<lparr>name = [], metadata = [(''id'', VNum 0)], parent = None, children = [(''a'', 1)]\<rparr>,
                  \<lparr>name = ''a'',
                   metadata = [(''id'', VNum 1), (''type'', VStr ''file''),
                               (''blob'', VBlob (make_blob ''note.txt'' ''hello'' (Some ''Text/Plain'')))],
                   parent = Some 0, children = []\<rparr>],
         mount_points = [], calls = []\<rparr>)"
    by (simp add: write_file_def priv_write_file_memfs_def new_vfs_def priv_push_def push_loop.simps(2)
        has_property_def get_property_def inherited_def object_prototype_names_def new_child_def
        merge_metadata_def object_assign_def Let_def)
  from write_file_memfs_pushes_path[OF wf_new_vfs m i, of "''note.txt''" "''hello''" "Some ''Text/Plain''"] e
  have "vfs_open (snd ?w) (PStr ''/a'') = Return (NodeRef 1)"
    by auto
  with wf_new_vfs m i e show ?thesis by (simp add: make_blob_lower_cases_type)
qed

section \<open>Pushing a path twice\<close>

text \<open>
  C4, as the claim states it, fails in its last part: the merge first sets \<^verbatim>\<open>type\<close> to
  \<^verbatim>\<open>"file"\<close>, so a second push overwrites an existing \<^verbatim>\<open>type\<close> although the later
  metadata has no such key. Here \<^verbatim>\<open>a\<close> is pushed as a folder and then again with a
  blob only, as \<^verbatim>\<open>mount_local_folder\<close> does.
\<close>

theorem second_push_overwrites_type:
  "map_of [(''blob'', VBlob x_txt)] ''type'' = None
   \<and> get_prop (metadata (nodes (snd (priv_push new_vfs (NodeRef 0) (PStr ''a'') [(''type'', VStr ''folder'')])) ! 1))
        ''type'' = VStr ''folder''
   \<and> get_prop (metadata (nodes (snd (priv_push
          (snd (priv_push new_vfs (NodeRef 0) (PStr ''a'') [(''type'', VStr ''folder'')]))
          (NodeRef 0) (PStr ''a'') [(''blob'', VBlob x_txt)])) ! 1)) ''type'' = VStr ''file''"
  by (simp add: vfs_eval)

text \<open>
  C4, amended. When a push from a node of the tree returns, pushing the same path from
  the same node again returns the same terminal node and creates nothing: the state
  after the second push is the state before it with the metadata of the terminal node
  replaced. In the new metadata \<^verbatim>\<open>type\<close> is \<^verbatim>\<open>"file"\<close> unless the later metadata gives a
  type, every key of the later metadata has the later value, and every other key keeps
  the value it had. No node has two children of the same name.
\<close>

theorem second_push_merges_metadata_only:
  assumes "wf_vfs s" and "a < length (nodes s)"
    and "priv_push s (NodeRef a) p md1 = (Return r, s1)"
  shows "\<exists>b. r = NodeRef b \<and> b < length (nodes s1)
           \<and> fst (priv_push s1 (NodeRef a) p md2) = Return (NodeRef b)
           \<and> snd (priv_push s1 (NodeRef a) p md2) =
               s1\<lparr>nodes := (nodes s1)[b := (nodes s1 ! b)
                    \<lparr>metadata := metadata (nodes (snd (priv_push s1 (NodeRef a) p md2)) ! b)\<rparr>]\<rparr>
           \<and> (\<forall>k. map_of (metadata (nodes (snd (priv_push s1 (NodeRef a) p md2)) ! b)) k =
                  (case map_of (rev md2) k of
                     Some v \<Rightarrow> Some v
                   | None \<Rightarrow> if k = ''type'' then Some (VStr ''file'')
                             else map_of (metadata (nodes s1 ! b)) k))
           \<and> (\<forall>c < length (nodes (snd (priv_push s1 (NodeRef a) p md2))).
                  distinct (map fst (children (nodes (snd (priv_push s1 (NodeRef a) p md2)) ! c))))"
proof -
  let ?segs = "normalize_path p"
  from assms(1) have ws: "wf_store (nodes s)" by (simp add: wf_vfs_def)
  from assms(2) have ok: "ref_ok (nodes s) (NodeRef a)" by simp
  from ws ok obtain b s0 where
    first: "priv_push s (NodeRef a) p md1 = (Return (NodeRef b), merge_metadata s0 b md1)"
      "b < length (nodes s0)" "wf_store (nodes s0)" "pushed (set ?segs) s s0"
      "open_loop (nodes s0) (NodeRef a) ?segs = Return (NodeRef b)"
  proof (cases rule: priv_push_cases[where p = p and md = md1])
    case (returns b s0)
    then show ?thesis by (intro that)
  next
    case (throws s0)
    with assms(3) show ?thesis by simp
  qed
  from first(1) assms(3) have r: "r = NodeRef b" and s1: "s1 = merge_metadata s0 b md1" by simp_all
  from first(4) assms(2) have a0: "ref_ok (nodes s0) (NodeRef a)" by (simp add: pushed_def)
  have ws1: "wf_store (nodes s1)" unfolding s1 merge_metadata_eq
    by (rule wf_store_set_metadata[OF first(3)])
  have b1: "b < length (nodes s1)" using first(2) by (simp add: s1 merge_metadata_eq)
  have "open_loop (nodes s1) (NodeRef a) ?segs = Return (NodeRef b)"
    unfolding s1 merge_metadata_eq by (rule open_loop_set_metadata[OF first(3) a0 first(5)])
  then have "push_loop s1 (NodeRef a) ?segs = (Return (NodeRef b), s1)" by (rule push_loop_existing)
  then have second: "priv_push s1 (NodeRef a) p md2 = (Return (NodeRef b), merge_metadata s1 b md2)"
    by (simp add: priv_push_def)
  let ?s2 = "merge_metadata s1 b md2"
  have md: "metadata (nodes ?s2 ! b) =
      object_assign (object_assign (metadata (nodes s1 ! b)) [(''type'', VStr ''file'')]) md2"
    using b1 by (simp add: merge_metadata_eq set_metadata_nth)
  have only: "?s2 = s1\<lparr>nodes := (nodes s1)[b := (nodes s1 ! b)\<lparr>metadata := metadata (nodes ?s2 ! b)\<rparr>]\<rparr>"
    unfolding md by (simp add: merge_metadata_def)
  have merge: "\<forall>k. map_of (metadata (nodes ?s2 ! b)) k =
                  (case map_of (rev md2) k of
                     Some v \<Rightarrow> Some v
                   | None \<Rightarrow> if k = ''type'' then Some (VStr ''file'')
                             else map_of (metadata (nodes s1 ! b)) k)"
    unfolding md by (simp add: map_of_object_assign split: option.splits)
  have "wf_store (nodes ?s2)" unfolding merge_metadata_eq by (rule wf_store_set_metadata[OF ws1])
  then have dist: "\<forall>c < length (nodes ?s2). distinct (map fst (children (nodes ?s2 ! c)))"
    by (simp add: wf_store_iff node_ok_def)
  show ?thesis
    apply (rule exI[of _ b])
    unfolding second fst_conv snd_conv
    using r b1 only merge dist by blast
qed

theorem second_push_merges_metadata_only_witness:
  "wf_vfs new_vfs \<and> (0::nat) < length (nodes new_vfs)
   \<and> priv_push new_vfs (NodeRef 0) (PStr ''a/b'') [(''type'', VStr ''folder'')] =
       (Return (NodeRef 2), snd (mkdir refusing_provider new_vfs ''a/b''))
   \<and> priv_push (snd (mkdir refusing_provider new_vfs ''a/b'')) (NodeRef 0) (PStr ''a/b'') [(''blob'', VBlob x_txt)] =
       (Return (NodeRef 2),
        \<lparr>node_id = 3, root = 0,
         nodes = [\<lparr>name = [], metadata = [(''id'', VNum 0)], parent = None, children = [(''a'', 1)]\<rparr>,
                  \<lparr>name = ''a'', metadata = [(''id'', VNum 1), (''type'', VStr ''folder'')],
                   parent = Some 0, children = [(''b'', 2)]\<rparr>,
                  \<lparr>name = ''b'', metadata = [(''id'', VNum 2), (''type'', VStr ''file''), (''blob'', VBlob x_txt)],
                   parent = Some 1, children = []\<rparr>],
         mount_points = [], calls = []\<rparr>)"
proof -
  let ?s1 = "snd (mkdir refusing_provider new_vfs ''a/b'')"
  have l: "(0::nat) < length (nodes new_vfs)" by (simp add: new_vfs_def)
  have s1: "?s1 =
        \<lparr>node_id = 3, root = 0,
         nodes = [\<lparr>name = [], metadata = [(''id'', VNum 0)], parent = None, children = [(''a'', 1)]\<rparr>,
                  \<lparr>name = ''a'', metadata = [(''id'', VNum 1), (''type'', VStr ''folder'')],
                   parent = Some 0, children = [(''b'', 2)]\<rparr>,
                  \<lparr>name = ''b'', metadata = [(''id'', VNum 2), (''type'', VStr ''folder'')],
                   parent = Some 1, children = []\<rparr>],
         mount_points = [], calls = []\<rparr>"
    by (simp add: vfs_eval)
  have p1: "priv_push new_vfs (NodeRef 0) (PStr ''a/b'') [(''type'', VStr ''folder'')] = (Return (NodeRef 2), ?s1)"
    unfolding s1 by (simp add: vfs_eval)
  from second_push_merges_metadata_only[OF wf_new_vfs l p1, of "[(''blob'', VBlob x_txt)]"]
  have "fst (priv_push ?s1 (NodeRef 0) (PStr ''a/b'') [(''blob'', VBlob x_txt)]) = Return (NodeRef 2)"
    by auto
  moreover have "snd (priv_push ?s1 (NodeRef 0) (PStr ''a/b'') [(''blob'', VBlob x_txt)]) =
        \<lparr>node_id = 3, root = 0,
         nodes = [\<lparr>name = [], metadata = [(''id'', VNum 0)], parent = None, children = [(''a'', 1)]\<rparr>,
                  \<lparr>name = ''a'', metadata = [(''id'', VNum 1), (''type'', VStr ''folder'')],
                   parent = Some 0, children = [(''b'', 2)]\<rparr>,
                  \<lparr>name = ''b'', metadata = [(''id'', VNum 2), (''type'', VStr ''file''), (''blob'', VBlob x_txt)],
                   parent = Some 1, children = []\<rparr>],
         mount_points = [], calls = []\<rparr>"
    unfolding s1 by (simp add: vfs_eval)
  ultimately show ?thesis using wf_new_vfs l p1 by (simp add: prod_eq_iff)
qed

lemma grows_priv_mkdir_local:
  assumes "wf_vfs s" "ref_ok (nodes s) (mroot mp)"
  shows "grows s (snd (priv_mkdir_local prov s mp path))"
proof (cases "priv_closest_directory_handler_local s (mroot mp) path")
  case (Throw e)
  then show ?thesis by (simp add: priv_mkdir_local_def)
next
  case (Return found)
  show ?thesis
  proof (cases found)
    case None
    with Return show ?thesis by (simp add: priv_mkdir_local_def)
  next
    case (Some t)
    obtain v node rest where t: "t = (v, node, rest)" by (cases t)
    from assms(1) have ws: "wf_store (nodes s)" by (simp add: wf_vfs_def)
    from closest_some_node[OF assms Return[unfolded Some t]] have n: "ref_ok (nodes s) node" .
    let ?r = "priv_push s node (PArr rest) [(''type'', VStr ''folder'')]"
    have g: "grows s (snd ?r)" by (rule grows_priv_push[OF ws n]) simp
    obtain r s1 where rs: "?r = (r, s1)" by (cases ?r)
    from g rs grows_trans[OF _ grows_mkdir_loop, of s s1] Return Some t show ?thesis
      by (auto simp: priv_mkdir_local_def split: outcome.splits)
  qed
qed

lemma grows_priv_write_file_local:
  assumes "wf_vfs s" "ref_ok (nodes s) (mroot mp)"
  shows "grows s (snd (priv_write_file_local s mp path b))"
proof (cases "priv_closest_directory_handler_local s (mroot mp) path")
  case (Throw e)
  then show ?thesis by (simp add: priv_write_file_local_def)
next
  case (Return found)
  show ?thesis
  proof (cases found)
    case None
    with Return show ?thesis by (simp add: priv_write_file_local_def)
  next
    case (Some t)
    obtain v node rest where t: "t = (v, node, rest)" by (cases t)
    from assms(1) have ws: "wf_store (nodes s)" by (simp add: wf_vfs_def)
    from closest_some_node[OF assms Return[unfolded Some t]] have n: "ref_ok (nodes s) node" .
    let ?r = "priv_push s node (PArr rest) [(''type'', VStr ''file'')]"
    have g: "grows s (snd ?r)" by (rule grows_priv_push[OF ws n]) simp
    obtain r s1 where rs: "?r = (r, s1)" by (cases ?r)
    from g rs Return Some t show ?thesis
      by (auto simp: priv_write_file_local_def split: outcome.splits)
  qed
qed

lemma grows_mkdir:
  assumes "wf_vfs s"
  shows "grows s (snd (mkdir prov s path))"
proof (cases "get_mount (mount_points s) path")
  case (Pair mo rest)
  from assms have ws: "wf_store (nodes s)" by (simp add: wf_vfs_def)
  show ?thesis
  proof (cases mo)
    case None
    have "grows s (snd (priv_push s (NodeRef (root s)) (PStr rest) [(''type'', VStr ''folder'')]))"
      by (rule grows_priv_push[OF ws wf_root_ref[OF assms]]) simp
    with Pair None show ?thesis by (simp add: mkdir_def priv_mkdir_memfs_def)
  next
    case (Some mp)
    from wf_mount_root[OF assms Pair[unfolded Some]] have "ref_ok (nodes s) (mroot mp)" .
    from grows_priv_mkdir_local[OF assms this] Pair Some show ?thesis
      by (simp add: mkdir_def)
  qed
qed

lemma grows_write_file:
  assumes "wf_vfs s"
  shows "grows s (snd (write_file s path f c h))"
proof (cases "get_mount (mount_points s) path")
  case (Pair mo rest)
  from assms have ws: "wf_store (nodes s)" by (simp add: wf_vfs_def)
  show ?thesis
  proof (cases mo)
    case None
    have "grows s (snd (priv_push s (NodeRef (root s)) (PStr rest)
        [(''type'', VStr ''file''), (''blob'', VBlob (make_blob f c h))]))"
      by (rule grows_priv_push[OF ws wf_root_ref[OF assms]]) simp
    with Pair None show ?thesis by (simp add: write_file_def priv_write_file_memfs_def)
  next
    case (Some mp)
    from wf_mount_root[OF assms Pair[unfolded Some]] have "ref_ok (nodes s) (mroot mp)" .
    from grows_priv_write_file_local[OF assms this] Pair Some show ?thesis
      by (simp add: write_file_def)
  qed
qed

lemma grows_mount_points_update: "grows s s1 \<Longrightarrow> grows s (s1\<lparr>mount_points := mps\<rparr>)"
  by (simp add: grows_def)

lemma grows_mount_local_file:
  assumes "wf_vfs s"
  shows "grows s (snd (mount_local_file s path picked))"
proof (cases "vfs_open s (PStr path)")
  case (Throw e)
  then show ?thesis by (simp add: mount_local_file_def)
next
  case (Return rt)
  from vfs_open_ref_ok[OF assms Return] have rt: "ref_ok (nodes s) rt" .
  from assms have ws: "wf_store (nodes s)" by (simp add: wf_vfs_def)
  show ?thesis
  proof (cases picked)
    case None
    with Return show ?thesis by (simp add: mount_local_file_def)
  next
    case (Some b)
    let ?r = "priv_push s rt (PStr (blob_name b)) [(''blob'', VBlob b), (''type'', VStr ''file'')]"
    have g: "grows s (snd ?r)" by (rule grows_priv_push[OF ws rt]) simp
    obtain r s1 where rs: "?r = (r, s1)" by (cases ?r)
    with g Return Some show ?thesis
      by (auto simp: mount_local_file_def grows_mount_points_update split: outcome.splits)
  qed
qed

lemma grows_mount_local_folder:
  assumes "wf_vfs s"
  shows "grows s (snd (mount_local_folder s path picked))"
proof (cases "vfs_open s (PStr path)")
  case (Throw e)
  then show ?thesis by (simp add: mount_local_folder_def)
next
  case (Return rt)
  from vfs_open_ref_ok[OF assms Return] have rt: "ref_ok (nodes s) rt" .
  show ?thesis
  proof (cases picked)
    case None
    with Return show ?thesis by (simp add: mount_local_folder_def)
  next
    case (Some blobs)
    from grows_folder_loop[OF assms rt, of blobs]
    have g: "grows s (snd (folder_loop s rt blobs))" .
    obtain ok s1 where fl: "folder_loop s rt blobs = (ok, s1)" by (cases "folder_loop s rt blobs")
    with g Return Some show ?thesis
      by (auto simp: mount_local_folder_def Let_def grows_mount_points_update
          split: jsref.splits bool.splits)
  qed
qed

lemma grows_apply_op: "wf_vfs s \<Longrightarrow> grows s (apply_op prov s op)"
  by (cases op)
    (simp_all add: grows_mkdir grows_write_file grows_mount_local_file grows_mount_local_folder)

lemma grows_ids_prefix:
  assumes "grows s s'"
  shows "prefix (map id_of (nodes s)) (map id_of (nodes s'))"
proof -
  from assms have "map id_of (nodes s) = take (length (nodes s)) (map id_of (nodes s'))"
    by (intro nth_equalityI) (simp_all add: grows_def)
  then show ?thesis by (metis take_is_prefix)
qed

lemma ids_ok_list:
  assumes "ids_ok s"
  shows "\<exists>ks. map id_of (nodes s) = map Some ks \<and> sorted_wrt (<) ks \<and> (\<forall>k \<in> set ks. k < node_id s)"
proof -
  from assms have all: "\<forall>x \<in> set (map id_of (nodes s)). \<exists>k. x = Some k \<and> k < node_id s"
    by (auto simp: ids_ok_def id_below_def list_all_iff split: option.splits)
  define ks where "ks = map the (map id_of (nodes s))"
  have "id_of (nodes s ! i) = Some (the (id_of (nodes s ! i)))" if "i < length (nodes s)" for i
    using all nth_mem[OF that] by fastforce
  then have eq: "map id_of (nodes s) = map Some ks"
    unfolding ks_def by (intro nth_equalityI) simp_all
  from assms have "sorted_wrt id_less (map Some ks)" by (simp add: ids_ok_def eq)
  then have "sorted_wrt (<) ks" by (simp add: sorted_wrt_map id_less_def)
  moreover from all have "\<forall>k \<in> set ks. k < node_id s" unfolding eq by auto
  ultimately show ?thesis using eq by blast
qed

section \<open>Node ids\<close>

text \<open>
  C7. The store lists the nodes in the order of their creation. In every state reached
  from the constructor by public operations, each node has a numeric id, the ids
  strictly increase along the store (so no two nodes share one) and lie below the
  counter \<^verbatim>\<open>node_id\<close>. An operation keeps every node and its id; the nodes it creates
  follow in the store, so by the order they get ids above every id assigned before.
\<close>

theorem node_ids_strictly_increasing:
  "\<exists>ks. map id_of (nodes (run prov new_vfs ops)) = map Some ks
        \<and> sorted_wrt (<) ks \<and> distinct ks
        \<and> (\<forall>k \<in> set ks. k < node_id (run prov new_vfs ops))
        \<and> prefix (map Some ks) (map id_of (nodes (run prov new_vfs (ops @ [op]))))"
proof -
  let ?s = "run prov new_vfs ops"
  have w: "wf_vfs ?s" by (rule wf_run[OF wf_new_vfs])
  then have "ids_ok ?s" by (simp add: wf_vfs_def)
  from ids_ok_list[OF this] obtain ks where ks: "map id_of (nodes ?s) = map Some ks"
    "sorted_wrt (<) ks" "\<forall>k \<in> set ks. k < node_id ?s" by blast
  from ks(2) have "distinct ks" by (simp add: strict_sorted_iff)
  moreover from grows_ids_prefix[OF grows_apply_op[OF w, of prov op]]
  have "prefix (map Some ks) (map id_of (nodes (run prov new_vfs (ops @ [op]))))"
    by (simp add: run_snoc ks(1))
  ultimately show ?thesis using ks by blast
qed

theorem node_ids_strictly_increasing_witness:
  "map id_of (nodes (run granting_provider new_vfs [Mkdir ''/a/b''])) = map Some [0, 1, 2]
   \<and> sorted_wrt (<) [0, 1, 2 :: nat] \<and> distinct [0, 1, 2 :: nat]
   \<and> node_id (run granting_provider new_vfs [Mkdir ''/a/b'']) = 3
   \<and> prefix (map Some [0, 1, 2])
        (map id_of (nodes (run granting_provider new_vfs ([Mkdir ''/a/b''] @ [WriteFile ''/a/c'' ''c'' ''x'' None]))))
   \<and> map id_of (nodes (run granting_provider new_vfs ([Mkdir ''/a/b''] @ [WriteFile ''/a/c'' ''c'' ''x'' None])))
        = map Some [0, 1, 2, 3]"
proof -
  have e: "map id_of (nodes (run granting_provider new_vfs [Mkdir ''/a/b''])) = map Some [0, 1, 2]"
    by (simp add: run_def vfs_eval id_of_def)
  have e2: "map id_of (nodes (run granting_provider new_vfs ([Mkdir ''/a/b''] @ [WriteFile ''/a/c'' ''c'' ''x'' None])))
        = map Some [0, 1, 2, 3]"
    by (simp add: run_def vfs_eval id_of_def)
  from node_ids_strictly_increasing[of granting_provider "[Mkdir ''/a/b'']" "WriteFile ''/a/c'' ''c'' ''x'' None"]
  obtain ks where ks: "map id_of (nodes (run granting_provider new_vfs [Mkdir ''/a/b''])) = map Some ks"
    "sorted_wrt (<) ks" "distinct ks"
    "\<forall>k \<in> set ks. k < node_id (run granting_provider new_vfs [Mkdir ''/a/b''])"
    "prefix (map Some ks)
       (map id_of (nodes (run granting_provider new_vfs ([Mkdir ''/a/b''] @ [WriteFile ''/a/c'' ''c'' ''x'' None]))))"
    by blast
  from ks(1) e have "map Some ks = map Some [0, 1, 2]" by simp
  then have "ks = [0, 1, 2]" by (simp add: map_eq_Cons_conv)
  moreover have "node_id (run granting_provider new_vfs [Mkdir ''/a/b'']) = 3"
    by (simp add: run_def vfs_eval)
  ultimately show ?thesis using ks e e2 by simp
qed

section \<open>Listing children\<close>

lemma set_own_property_names: "set (own_property_names ch) = fst ` set ch"
  by (auto simp: own_property_names_def)

lemma own_property_names_no_index:
  "\<forall>k \<in> fst ` set ch. \<not> is_array_index k \<Longrightarrow> own_property_names ch = map fst ch"
  by (simp add: own_property_names_def filter_empty_conv)

lemma child_names_keys:
  assumes "wf_store ns" "a < length ns"
  shows "child_names ns a = own_property_names (children (ns ! a))"
proof -
  have "(case map_of (children (ns ! a)) k of Some b \<Rightarrow> name (ns ! b) | None \<Rightarrow> []) = k"
    if "k \<in> set (own_property_names (children (ns ! a)))" for k
  proof -
    from that have "k \<in> fst ` set (children (ns ! a))" by (simp add: set_own_property_names)
    then obtain b where b: "map_of (children (ns ! a)) k = Some b"
      by (metis map_of_eq_None_iff not_Some_eq)
    from wf_store_child(3)[OF assms b] b show ?thesis by simp
  qed
  then show ?thesis unfolding child_names_def by (simp add: map_idI)
qed

text \<open>
  C8, as the claim states it, fails on names that are array indices: the enumeration
  of a plain object lists them first, in numeric order. After \<^verbatim>\<open>mkdir("/b")\<close> and
  \<^verbatim>\<open>mkdir("/1")\<close> the listing of the root starts with \<^verbatim>\<open>1\<close>, which was created last.
\<close>

theorem ls_lists_array_index_names_first:
  "ls (run granting_provider new_vfs [Mkdir ''/b'']) (PStr ''/'') = Return (Some [''b''])
   \<and> ls (run granting_provider new_vfs [Mkdir ''/b'', Mkdir ''/1'']) (PStr ''/'') = Return (Some [''1'', ''b''])"
  by (simp add: run_def vfs_eval)

text \<open>
  C8, amended. In every state reached from the constructor, for a path that resolves to
  a node, \<^verbatim>\<open>ls\<close> returns the names of the node's current children in the own-property
  order of the children object: the names that are array indices first, in ascending
  numeric order, then every other name in the order in which the children were created;
  with no array index among the names this is the creation order. An operation only
  appends to the children of a node, so the order of creation is kept, the path still
  resolves to the node and a later \<^verbatim>\<open>ls\<close> lists the children the node has then.
\<close>

theorem ls_lists_children_in_property_order:
  assumes "s = run prov new_vfs ops" and "vfs_open s p = Return (NodeRef a)"
    and "s' = apply_op prov s op"
  shows "ls s p = Return (Some (own_property_names (children (nodes s ! a))))
       \<and> own_property_names (children (nodes s ! a)) =
           sort_key decimal (filter is_array_index (map fst (children (nodes s ! a))))
           @ filter (\<lambda>k. \<not> is_array_index k) (map fst (children (nodes s ! a)))
       \<and> ((\<forall>k \<in> fst ` set (children (nodes s ! a)). \<not> is_array_index k)
            \<longrightarrow> ls s p = Return (Some (map fst (children (nodes s ! a)))))
       \<and> prefix (children (nodes s ! a)) (children (nodes s' ! a))
       \<and> vfs_open s' p = Return (NodeRef a)
       \<and> ls s' p = Return (Some (own_property_names (children (nodes s' ! a))))"
proof -
  have w: "wf_vfs s" unfolding assms(1) by (rule wf_run[OF wf_new_vfs])
  then have ws: "wf_store (nodes s)" and r: "ref_ok (nodes s) (NodeRef (root s))"
    by (simp_all add: wf_vfs_def)
  from vfs_open_ref_ok[OF w assms(2)] have a: "a < length (nodes s)" by simp
  have w': "wf_vfs s'" unfolding assms(3) by (rule wf_apply_op[OF w])
  then have ws': "wf_store (nodes s')" by (simp add: wf_vfs_def)
  have g: "grows s s'" unfolding assms(3) by (rule grows_apply_op[OF w])
  then have pre: "\<forall>b < length (nodes s). prefix (children (nodes s ! b)) (children (nodes s' ! b))"
    and rt: "root s' = root s" and len: "length (nodes s) \<le> length (nodes s')"
    by (simp_all add: grows_def)
  from assms(2) have o: "open_loop (nodes s) (NodeRef (root s)) (normalize_path p) = Return (NodeRef a)"
    by (simp add: vfs_open_def priv_open_def)
  from open_loop_mono[OF ws r o pre] rt have o': "vfs_open s' p = Return (NodeRef a)"
    by (simp add: vfs_open_def priv_open_def)
  have 1: "ls s p = Return (Some (own_property_names (children (nodes s ! a))))"
    using assms(2) child_names_keys[OF ws a] by (simp add: ls_def)
  have 2: "ls s' p = Return (Some (own_property_names (children (nodes s' ! a))))"
    using o' child_names_keys[OF ws', of a] a len by (simp add: ls_def)
  have 3: "(\<forall>k \<in> fst ` set (children (nodes s ! a)). \<not> is_array_index k)
            \<longrightarrow> ls s p = Return (Some (map fst (children (nodes s ! a))))"
    using 1 by (simp add: own_property_names_no_index)
  from 1 2 3 pre a o' show ?thesis by (simp add: own_property_names_def)
qed

theorem ls_lists_children_in_property_order_witness:
  "vfs_open (run granting_provider new_vfs [Mkdir ''/d/b'', Mkdir ''/d/7'']) (PStr ''/d'') = Return (NodeRef 1)
   \<and> children (nodes (run granting_provider new_vfs [Mkdir ''/d/b'', Mkdir ''/d/7'']) ! 1) = [(''b'', 2), (''7'', 3)]
   \<and> ls (run granting_provider new_vfs [Mkdir ''/d/b'', Mkdir ''/d/7'']) (PStr ''/d'') = Return (Some [''7'', ''b''])
   \<and> children (nodes (apply_op granting_provider (run granting_provider new_vfs [Mkdir ''/d/b'', Mkdir ''/d/7''])
         (Mkdir ''/d/a'')) ! 1) = [(''b'', 2), (''7'', 3), (''a'', 4)]
   \<and> ls (apply_op granting_provider (run granting_provider new_vfs [Mkdir ''/d/b'', Mkdir ''/d/7''])
         (Mkdir ''/d/a'')) (PStr ''/d'') = Return (Some [''7'', ''b'', ''a''])"
proof -
  let ?s = "run granting_provider new_vfs [Mkdir ''/d/b'', Mkdir ''/d/7'']"
  let ?s' = "apply_op granting_provider ?s (Mkdir ''/d/a'')"
  have o: "vfs_open ?s (PStr ''/d'') = Return (NodeRef 1)"
    by (simp add: run_def vfs_eval)
  have c: "children (nodes ?s ! 1) = [(''b'', 2), (''7'', 3)]"
    by (simp add: run_def vfs_eval)
  have c': "children (nodes ?s' ! 1) = [(''b'', 2), (''7'', 3), (''a'', 4)]"
    by (simp add: run_def vfs_eval)
  have n: "own_property_names [(''b'', 2), (''7'', 3)] = [''7'', ''b'']"
    "own_property_names [(''b'', 2), (''7'', 3), (''a'', 4)] = [''7'', ''b'', ''a'']"
    by (simp_all add: vfs_eval)
  from ls_lists_children_in_property_order[OF refl o refl, of "Mkdir ''/d/a''"]
  have "ls ?s (PStr ''/d'') = Return (Some (own_property_names (children (nodes ?s ! 1))))"
    "ls ?s' (PStr ''/d'') = Return (Some (own_property_names (children (nodes ?s' ! 1))))"
    by blast+
  with o c c' n show ?thesis by simp
qed

lemma open_loop_append:
  "open_loop ns c xs = Return (NodeRef b) \<Longrightarrow> open_loop ns c (xs @ ys) = open_loop ns (NodeRef b) ys"
proof (induction xs arbitrary: c)
  case Nil
  then show ?case by simp
next
  case (Cons x xs)
  then show ?case
    by (cases c) (auto simp: open_loop.simps(2) split: if_splits)
qed

text \<open>What a push with a type-only metadata argument leaves alone.\<close>

lemma priv_push_frame:
  assumes "wf_store (nodes s)" "ref_ok (nodes s) node"
    "priv_push s node (PArr segs) [(''type'', VStr ty)] = (r, s1)"
  shows "calls s1 = calls s \<and> mount_points s1 = mount_points s \<and> root s1 = root s
       \<and> length (nodes s) \<le> length (nodes s1) \<and> wf_store (nodes s1)
       \<and> (\<forall>b < length (nodes s). prefix (children (nodes s ! b)) (children (nodes s1 ! b))
             \<and> (\<forall>k. k \<noteq> ''type'' \<longrightarrow> get_prop (metadata (nodes s1 ! b)) k = get_prop (metadata (nodes s ! b)) k))
       \<and> (\<forall>b. length (nodes s) \<le> b \<and> b < length (nodes s1) \<longrightarrow>
             (\<forall>k. k \<noteq> ''type'' \<and> k \<noteq> ''id'' \<longrightarrow> get_prop (metadata (nodes s1 ! b)) k = VUndefined)
             \<and> (r \<noteq> Return (NodeRef b) \<longrightarrow> get_prop (metadata (nodes s1 ! b)) ''type'' = VStr ''folder''))
       \<and> (\<forall>t. r = Return (NodeRef t) \<longrightarrow> t < length (nodes s1)
             \<and> open_loop (nodes s1) node segs = Return (NodeRef t)
             \<and> get_prop (metadata (nodes s1 ! t)) ''type'' = VStr ty)
       \<and> (\<forall>c. r = Return c \<longrightarrow> (\<exists>t. c = NodeRef t))
       \<and> ((\<exists>a. node = NodeRef a) \<and> (\<forall>seg \<in> set segs. \<not> inherited seg) \<longrightarrow> (\<exists>t. r = Return (NodeRef t)))"
proof -
  let ?md = "[(''type'', VStr ty)]"
  have meta: "get_prop (metadata (nodes (merge_metadata s0 b ?md) ! c)) k = get_prop (metadata (nodes s0 ! c)) k"
    if "c < length (nodes s0)" "k \<noteq> ''type''" for s0 b c k
    using that by (simp add: merge_metadata_eq set_metadata_nth get_prop_object_assign)
  have ty: "get_prop (metadata (nodes (merge_metadata s0 b ?md) ! b)) ''type'' = VStr ty"
    if "b < length (nodes s0)" for s0 b
    using that by (simp add: merge_metadata_eq set_metadata_nth get_prop_object_assign)
  have other: "metadata (nodes (merge_metadata s0 b ?md) ! c) = metadata (nodes s0 ! c)"
    if "c < length (nodes s0)" "c \<noteq> b" for s0 b c
    using that by (simp add: merge_metadata_eq set_metadata_nth)
  have last: "(\<exists>a. node = NodeRef a) \<and> (\<forall>seg \<in> set segs. \<not> inherited seg) \<longrightarrow> (\<exists>t. r = Return (NodeRef t))"
  proof (intro impI, elim conjE exE)
    fix a assume a: "node = NodeRef a" and ni: "\<forall>seg \<in> set segs. \<not> inherited seg"
    from assms(2) a have al: "a < length (nodes s)" by simp
    from ni have ni': "\<forall>seg \<in> set (normalize_path (PArr segs)). \<not> inherited seg" by simp
    from assms(1) al ni' obtain b s0 where
      "priv_push s (NodeRef a) (PArr segs) ?md = (Return (NodeRef b), merge_metadata s0 b ?md)"
      by (rule priv_push_returns[where md = ?md])
    with assms(3) a show "\<exists>t. r = Return (NodeRef t)" by auto
  qed
  from assms(1,2) show ?thesis
  proof (cases rule: priv_push_cases[where p = "PArr segs" and md = ?md])
    case (returns b s0)
    with assms(3) have r: "r = Return (NodeRef b)" and s1: "s1 = merge_metadata s0 b ?md" by simp_all
    note p = returns(5)[unfolded pushed_def, simplified]
    from returns(4) have w1: "wf_store (nodes s1)"
      unfolding s1 merge_metadata_eq by (rule wf_store_set_metadata)
    from p assms(2) have n0: "ref_ok (nodes s0) node" by (auto intro: ref_ok_mono)
    have o1: "open_loop (nodes s1) node segs = Return (NodeRef b)"
      unfolding s1 merge_metadata_eq
      using open_loop_set_metadata[OF returns(4) n0] returns(6) by simp
    have len1: "length (nodes s1) = length (nodes s0)" by (simp add: s1 merge_metadata_eq)
    have ch1: "children (nodes (merge_metadata s0 b ?md) ! c) = children (nodes s0 ! c)"
      if "c < length (nodes s0)" for c
      using that by (simp add: merge_metadata_eq)
    have old: "prefix (children (nodes s ! c)) (children (nodes s1 ! c))
        \<and> (\<forall>k. k \<noteq> ''type'' \<longrightarrow> get_prop (metadata (nodes s1 ! c)) k = get_prop (metadata (nodes s ! c)) k)"
      if "c < length (nodes s)" for c
    proof -
      from that p have c0: "c < length (nodes s0)" by simp
      from p that have "prefix (children (nodes s ! c)) (children (nodes s0 ! c))"
        "metadata (nodes s0 ! c) = metadata (nodes s ! c)" by simp_all
      with c0 show ?thesis by (simp add: ch1 s1 meta)
    qed
    have new: "(\<forall>k. k \<noteq> ''type'' \<and> k \<noteq> ''id'' \<longrightarrow> get_prop (metadata (nodes s1 ! c)) k = VUndefined)
             \<and> (r \<noteq> Return (NodeRef c) \<longrightarrow> get_prop (metadata (nodes s1 ! c)) ''type'' = VStr ''folder'')"
      if "length (nodes s) \<le> c \<and> c < length (nodes s1)" for c
    proof -
      from that len1 have c0: "c < length (nodes s0)" by simp
      with p that have m0: "metadata (nodes s0 ! c) =
          [(''id'', VNum (node_id s + (c - length (nodes s)))), (''type'', VStr ''folder'')]" by simp
      have "get_prop (metadata (nodes s1 ! c)) k = VUndefined" if "k \<noteq> ''type''" "k \<noteq> ''id''" for k
      proof -
        from that c0 have "get_prop (metadata (nodes s1 ! c)) k = get_prop (metadata (nodes s0 ! c)) k"
          by (simp add: s1 meta)
        with that show ?thesis by (simp add: m0 get_prop_def)
      qed
      moreover have "get_prop (metadata (nodes s1 ! c)) ''type'' = VStr ''folder''" if "c \<noteq> b"
      proof -
        from that c0 have "metadata (nodes s1 ! c) = metadata (nodes s0 ! c)" by (simp add: s1 other)
        then show ?thesis by (simp add: m0 get_prop_def)
      qed
      ultimately show ?thesis using r by auto
    qed
    from p have "calls s1 = calls s \<and> mount_points s1 = mount_points s \<and> root s1 = root s
       \<and> length (nodes s) \<le> length (nodes s1)" by (simp add: s1 merge_metadata_eq)
    moreover have "\<forall>t. r = Return (NodeRef t) \<longrightarrow> t < length (nodes s1)
             \<and> open_loop (nodes s1) node segs = Return (NodeRef t)
             \<and> get_prop (metadata (nodes s1 ! t)) ''type'' = VStr ty"
      using r o1 returns(3) len1 ty[OF returns(3)] by (simp add: s1)
    ultimately show ?thesis using w1 old new r last by blast
  next
    case (throws s0)
    with assms(3) have r: "r = Throw TypeError" and s1: "s1 = s0" by simp_all
    note p = throws(3)[unfolded pushed_def, simplified]
    have new: "(\<forall>k. k \<noteq> ''type'' \<and> k \<noteq> ''id'' \<longrightarrow> get_prop (metadata (nodes s1 ! c)) k = VUndefined)
             \<and> (r \<noteq> Return (NodeRef c) \<longrightarrow> get_prop (metadata (nodes s1 ! c)) ''type'' = VStr ''folder'')"
      if "length (nodes s) \<le> c \<and> c < length (nodes s1)" for c
    proof -
      from p that s1 have m0: "metadata (nodes s1 ! c) =
          [(''id'', VNum (node_id s + (c - length (nodes s)))), (''type'', VStr ''folder'')]" by simp
      then show ?thesis by (simp add: get_prop_def)
    qed
    have old: "prefix (children (nodes s ! c)) (children (nodes s1 ! c))
        \<and> (\<forall>k. k \<noteq> ''type'' \<longrightarrow> get_prop (metadata (nodes s1 ! c)) k = get_prop (metadata (nodes s ! c)) k)"
      if "c < length (nodes s)" for c
      using p that s1 by simp
    from p have "calls s1 = calls s \<and> mount_points s1 = mount_points s \<and> root s1 = root s
       \<and> length (nodes s) \<le> length (nodes s1)" by (simp add: s1)
    then show ?thesis using throws(2) old new r last s1 by blast
  qed
qed

text \<open>After a push from the node the search found, the whole relative path resolves.\<close>

lemma found_then_pushed_resolves:
  assumes "wf_vfs s" "ref_ok (nodes s) m"
    "priv_closest_directory_handler_local s m rest = Return (Some (handler, node, to_create))"
    "\<forall>b < length (nodes s). prefix (children (nodes s ! b)) (children (nodes s1 ! b))"
    "open_loop (nodes s1) node to_create = Return (NodeRef t)"
  shows "priv_open s1 m (PStr rest) = Return (NodeRef t)"
proof -
  let ?segs = "normalize_path (PStr rest)"
  from assms(1) have ws: "wf_store (nodes s)" by (simp add: wf_vfs_def)
  from closest_loop_some[OF ws assms(2) assms(3)[unfolded priv_closest_directory_handler_local_def]]
  obtain a k where ak: "node = NodeRef a" "k \<le> length ?segs"
    "open_loop (nodes s) m (take k ?segs) = Return (NodeRef a)" "to_create = drop k ?segs"
    by auto
  from open_loop_mono[OF ws assms(2) ak(3) assms(4)]
  have "open_loop (nodes s1) m (take k ?segs) = Return (NodeRef a)" .
  from open_loop_append[OF this, of "drop k ?segs"] assms(5) ak(1,4)
  show ?thesis by (simp add: priv_open_def)
qed

section \<open>Writing a file under a local mount\<close>

text \<open>
  C6. A \<^verbatim>\<open>write_file\<close> under a local mount whose search succeeds should mirror the
  missing segments into the tree, ending in a file node, and do nothing else. The code
  does so except for a defect of the existence check in \<^verbatim>\<open>_push\<close>: \<^verbatim>\<open>segment in
  cnode._children\<close> also holds of the names that the plain children object inherits from
  \<^verbatim>\<open>Object.prototype\<close>. Under the mount \<^verbatim>\<open>/proj\<close>, whose root carries a handle,
  \<^verbatim>\<open>write_file("/proj/sub/toString", ...)\<close> passes the search with \<^verbatim>\<open>sub\<close> and \<^verbatim>\<open>toString\<close>
  to create, creates \<^verbatim>\<open>sub\<close>, takes the inherited function for the child \<^verbatim>\<open>toString\<close> and
  throws a TypeError: the promise is rejected and the path ends in no file node. No
  request reaches the provider and the handle of \<^verbatim>\<open>/proj\<close> stays, as the claim says.
\<close>

theorem local_write_file_inherited_name_throws:
  "priv_closest_directory_handler_local proj_vfs (NodeRef 1) ''/sub/toString''
      = Return (Some (VHandle (Handle 0), NodeRef 1, [''sub'', ''toString'']))
   \<and> fst (write_file proj_vfs ''/proj/sub/toString'' ''n.txt'' ''hello'' None) = Throw TypeError
   \<and> vfs_open (snd (write_file proj_vfs ''/proj/sub/toString'' ''n.txt'' ''hello'' None)) (PStr ''/proj/sub'')
      = Return (NodeRef 3)
   \<and> vfs_open (snd (write_file proj_vfs ''/proj/sub/toString'' ''n.txt'' ''hello'' None))
        (PStr ''/proj/sub/toString'') = Return (ProtoRef ''toString'')
   \<and> calls (snd (write_file proj_vfs ''/proj/sub/toString'' ''n.txt'' ''hello'' None)) = []
   \<and> get_prop (metadata (nodes (snd (write_file proj_vfs ''/proj/sub/toString'' ''n.txt'' ''hello'' None)) ! 1))
        ''directoryHandle'' = VHandle (Handle 0)"
  by (simp add: proj_vfs_eq vfs_eval)

text \<open>
  On every other input the code does what is claimed. For a \<^verbatim>\<open>write_file\<close> under a local
  mount whose closest-handle search succeeds: no request is issued to the storage
  provider and no mount point is added; on the nodes that existed, no metadata key other
  than \<^verbatim>\<open>type\<close> changes, so every \<^verbatim>\<open>directoryHandle\<close> and every \<^verbatim>\<open>blob\<close> stays as it was;
  the nodes the call creates carry neither a \<^verbatim>\<open>directoryHandle\<close> nor a \<^verbatim>\<open>blob\<close>. When no
  segment to create names an inherited property, the call completes and the relative path
  then resolves to a node of type \<^verbatim>\<open>file\<close>.
\<close>

lemma local_write_file_touches_tree_only:
  assumes "wf_vfs s" and "get_mount (mount_points s) path = (Some mp, rest)" and "mtype mp = ''local''"
    and "priv_closest_directory_handler_local s (mroot mp) rest = Return (Some (handler, node, to_create))"
    and "write_file s path f c h = (r, s')"
  shows "calls s' = calls s \<and> mount_points s' = mount_points s
       \<and> (\<forall>b < length (nodes s). \<forall>k. k \<noteq> ''type'' \<longrightarrow>
             get_prop (metadata (nodes s' ! b)) k = get_prop (metadata (nodes s ! b)) k)
       \<and> (\<forall>b. length (nodes s) \<le> b \<and> b < length (nodes s') \<longrightarrow>
             get_prop (metadata (nodes s' ! b)) ''directoryHandle'' = VUndefined
             \<and> get_prop (metadata (nodes s' ! b)) ''blob'' = VUndefined)
       \<and> ((\<forall>seg \<in> set to_create. \<not> inherited seg) \<longrightarrow>
             r = Return JUndefined
             \<and> (\<exists>t. priv_open s' (mroot mp) (PStr rest) = Return (NodeRef t)
                    \<and> get_prop (metadata (nodes s' ! t)) ''type'' = VStr ''file''))"
proof -
  from assms(1) have ws: "wf_store (nodes s)" by (simp add: wf_vfs_def)
  from wf_mount_root[OF assms(1,2)] have m: "ref_ok (nodes s) (mroot mp)" .
  from closest_some_node[OF assms(1) m assms(4)] have n: "ref_ok (nodes s) node" .
  obtain r1 s1 where p: "priv_push s node (PArr to_create) [(''type'', VStr ''file'')] = (r1, s1)"
    by (cases "priv_push s node (PArr to_create) [(''type'', VStr ''file'')]")
  from assms(2,3,4,5) p have s': "s' = s1"
    and r: "r = (case r1 of Throw e \<Rightarrow> Throw e | Return x \<Rightarrow> Return JUndefined)"
    by (auto simp: write_file_def priv_write_file_local_def split: outcome.splits)
  note fr = priv_push_frame[OF ws n p]
  from ws m assms(4) have "\<exists>a. node = NodeRef a"
    using closest_loop_some[of "nodes s" "mroot mp" "normalize_path (PStr rest)" "[]" handler node to_create]
    by (auto simp: priv_closest_directory_handler_local_def)
  with fr have ret: "(\<forall>seg \<in> set to_create. \<not> inherited seg) \<longrightarrow> (\<exists>t. r1 = Return (NodeRef t))"
    by blast
  from fr have pre: "\<forall>b < length (nodes s). prefix (children (nodes s ! b)) (children (nodes s1 ! b))"
    by blast
  have fin: "r = Return JUndefined
             \<and> (\<exists>t. priv_open s' (mroot mp) (PStr rest) = Return (NodeRef t)
                    \<and> get_prop (metadata (nodes s' ! t)) ''type'' = VStr ''file'')"
    if "\<forall>seg \<in> set to_create. \<not> inherited seg"
  proof -
    from ret that obtain t where t: "r1 = Return (NodeRef t)" by blast
    with fr have o: "open_loop (nodes s1) node to_create = Return (NodeRef t)"
      and ty: "get_prop (metadata (nodes s1 ! t)) ''type'' = VStr ''file''" by blast+
    from found_then_pushed_resolves[OF assms(1) m assms(4) pre o] ty t r s'
    show ?thesis by simp
  qed
  from fr have "calls s1 = calls s \<and> mount_points s1 = mount_points s
       \<and> (\<forall>b < length (nodes s). \<forall>k. k \<noteq> ''type'' \<longrightarrow>
             get_prop (metadata (nodes s1 ! b)) k = get_prop (metadata (nodes s ! b)) k)
       \<and> (\<forall>b. length (nodes s) \<le> b \<and> b < length (nodes s1) \<longrightarrow>
             get_prop (metadata (nodes s1 ! b)) ''directoryHandle'' = VUndefined
             \<and> get_prop (metadata (nodes s1 ! b)) ''blob'' = VUndefined)"
    by simp
  with fin show ?thesis unfolding s' by blast
qed

lemma wf_proj_vfs: "wf_vfs proj_vfs"
  unfolding proj_vfs_def by (rule wf_mount_local_folder[OF wf_new_vfs])

lemma local_write_file_touches_tree_only_example:
  "wf_vfs proj_vfs
   \<and> get_mount (mount_points proj_vfs) ''/proj/sub/inner''
       = (Some \<lparr>mtype = ''local'', mpath = ''/proj'', mroot = NodeRef 1\<rparr>, ''/sub/inner'')
   \<and> priv_closest_directory_handler_local proj_vfs (NodeRef 1) ''/sub/inner''
       = Return (Some (VHandle (Handle 0), NodeRef 1, [''sub'', ''inner'']))
   \<and> \<not> inherited ''sub'' \<and> \<not> inherited ''inner''
   \<and> fst (write_file proj_vfs ''/proj/sub/inner'' ''n.txt'' ''hello'' None) = Return JUndefined
   \<and> calls (snd (write_file proj_vfs ''/proj/sub/inner'' ''n.txt'' ''hello'' None)) = []
   \<and> priv_open (snd (write_file proj_vfs ''/proj/sub/inner'' ''n.txt'' ''hello'' None)) (NodeRef 1)
        (PStr ''/sub/inner'') = Return (NodeRef 4)
   \<and> get_prop (metadata (nodes (snd (write_file proj_vfs ''/proj/sub/inner'' ''n.txt'' ''hello'' None)) ! 4))
        ''type'' = VStr ''file''
   \<and> get_prop (metadata (nodes (snd (write_file proj_vfs ''/proj/sub/inner'' ''n.txt'' ''hello'' None)) ! 1))
        ''directoryHandle'' = VHandle (Handle 0)
   \<and> get_prop (metadata (nodes (snd (write_file proj_vfs ''/proj/sub/inner'' ''n.txt'' ''hello'' None)) ! 3))
        ''directoryHandle'' = VUndefined"
proof -
  let ?mp = "\<lparr>mtype = ''local'', mpath = ''/proj'', mroot = NodeRef 1\<rparr>"
  let ?w = "write_file proj_vfs ''/proj/sub/inner'' ''n.txt'' ''hello'' None"
  have m: "get_mount (mount_points proj_vfs) ''/proj/sub/inner'' = (Some ?mp, ''/sub/inner'')"
    by (simp add: proj_vfs_eq)
  have t: "mtype ?mp = ''local''" by simp
  have f: "priv_closest_directory_handler_local proj_vfs (mroot ?mp) ''/sub/inner''
       = Return (Some (VHandle (Handle 0), NodeRef 1, [''sub'', ''inner'']))"
    by (simp add: proj_vfs_eq vfs_eval)
  have i: "\<forall>seg \<in> set [''sub'', ''inner'']. \<not> inherited seg"
    by (simp add: inherited_def object_prototype_names_def)
  have e: "?w = (fst ?w, snd ?w)" by simp
  have o: "priv_open (snd ?w) (NodeRef 1) (PStr ''/sub/inner'') = Return (NodeRef 4)"
    by (simp add: proj_vfs_eq vfs_eval)
  have l: "length (nodes proj_vfs) = 3" "length (nodes (snd ?w)) = 5"
    "get_prop (metadata (nodes proj_vfs ! 1)) ''directoryHandle'' = VHandle (Handle 0)"
    by (simp_all add: proj_vfs_eq vfs_eval)
  note main = local_write_file_touches_tree_only[OF wf_proj_vfs m t f e]
  from main i have "fst ?w = Return JUndefined" by blast
  moreover from main have "calls (snd ?w) = calls proj_vfs" by blast
  moreover from main i o have "get_prop (metadata (nodes (snd ?w) ! 4)) ''type'' = VStr ''file''"
    by auto
  moreover from main l have "get_prop (metadata (nodes (snd ?w) ! 1)) ''directoryHandle'' = VHandle (Handle 0)"
    by auto
  moreover from main l have "get_prop (metadata (nodes (snd ?w) ! 3)) ''directoryHandle'' = VUndefined"
    by auto
  ultimately show ?thesis using wf_proj_vfs m f i o by (simp add: proj_vfs_eq)
qed

section \<open>Creating directories under a local mount\<close>

text \<open>
  C1. A \<^verbatim>\<open>mkdir\<close> under a local mount whose search succeeds should mirror the missing
  segments into the tree as folder nodes, then request a handle for each of them from the
  handle of its parent, shallowest first, attach it, and return the terminal node with its
  handle. On \<^verbatim>\<open>/proj/sub/inner\<close> the code does so: \<^verbatim>\<open>sub\<close> and \<^verbatim>\<open>inner\<close> become folder
  nodes, \<^verbatim>\<open>sub\<close> is requested on the handle of \<^verbatim>\<open>/proj\<close> and \<^verbatim>\<open>inner\<close> on the handle granted
  for \<^verbatim>\<open>sub\<close>, both handles are attached and the node \<^verbatim>\<open>inner\<close> is returned. On
  \<^verbatim>\<open>/proj/sub/toString\<close> it does not: the search succeeds with \<^verbatim>\<open>sub\<close> and \<^verbatim>\<open>toString\<close> to
  create, \<^verbatim>\<open>_push\<close> creates \<^verbatim>\<open>sub\<close>, takes the function inherited from \<^verbatim>\<open>Object.prototype\<close>
  for the child \<^verbatim>\<open>toString\<close> and throws a TypeError. The promise is rejected, no handle is
  requested, \<^verbatim>\<open>sub\<close> is left without handle and no node is returned.
\<close>

theorem local_mkdir_inherited_name_throws:
  "priv_closest_directory_handler_local proj_vfs (NodeRef 1) ''/sub/toString''
      = Return (Some (VHandle (Handle 0), NodeRef 1, [''sub'', ''toString'']))
   \<and> fst (mkdir granting_provider proj_vfs ''/proj/sub/toString'') = Throw TypeError
   \<and> calls (snd (mkdir granting_provider proj_vfs ''/proj/sub/toString'')) = []
   \<and> vfs_open (snd (mkdir granting_provider proj_vfs ''/proj/sub/toString'')) (PStr ''/proj/sub'')
      = Return (NodeRef 3)
   \<and> get_prop (metadata (nodes (snd (mkdir granting_provider proj_vfs ''/proj/sub/toString'')) ! 3))
        ''directoryHandle'' = VUndefined
   \<and> priv_closest_directory_handler_local proj_vfs (NodeRef 1) ''/sub/inner''
      = Return (Some (VHandle (Handle 0), NodeRef 1, [''sub'', ''inner'']))
   \<and> mkdir granting_provider proj_vfs ''/proj/sub/inner'' =
       (Return (NodeRef 4),
        \<lparr>node_id = 5, root = 0,
         nodes =
           [\<lparr>name = [], metadata = [(''id'', VNum 0)], parent = None, children = [(''proj'', 1)]\<rparr>,
            \<lparr>name = ''proj'',
             metadata = [(''id'', VNum 1), (''type'', VStr ''folder''), (''directoryHandle'', VHandle (Handle 0))],
             parent = Some 0, children = [(''x.txt'', 2), (''sub'', 3)]\<rparr>,
            \<lparr>name = ''x.txt'', metadata = [(''id'', VNum 2), (''type'', VStr ''file''), (''blob'', VBlob x_txt)],
             parent = Some 1, children = []\<rparr>,
            \<lparr>name = ''sub'',
             metadata = [(''id'', VNum 3), (''type'', VStr ''folder''), (''directoryHandle'', VHandle (Handle 1))],
             parent = Some 1, children = [(''inner'', 4)]\<rparr>,
            \<lparr>name = ''inner'',
             metadata = [(''id'', VNum 4), (''type'', VStr ''folder''), (''directoryHandle'', VHandle (Handle 2))],
             parent = Some 3, children = []\<rparr>],
         mount_points = [\<lparr>mtype = ''local'', mpath = ''/proj'', mroot = NodeRef 1\<rparr>],
         calls = [(Handle 0, ''sub''), (Handle 1, ''inner'')]\<rparr>)"
proof -
  have bad: "mkdir granting_provider proj_vfs ''/proj/sub/toString'' =
       (Throw TypeError,
        \<lparr>node_id = 4, root = 0,
         nodes =
           [\<lparr>name = [], metadata = [(''id'', VNum 0)], parent = None, children = [(''proj'', 1)]\<rparr>,
            \<lparr>name = ''proj'',
             metadata = [(''id'', VNum 1), (''type'', VStr ''folder''), (''directoryHandle'', VHandle (Handle 0))],
             parent = Some 0, children = [(''x.txt'', 2), (''sub'', 3)]\<rparr>,
            \<lparr>name = ''x.txt'', metadata = [(''id'', VNum 2), (''type'', VStr ''file''), (''blob'', VBlob x_txt)],
             parent = Some 1, children = []\<rparr>,
            \<lparr>name = ''sub'', metadata = [(''id'', VNum 3), (''type'', VStr ''folder'')],
             parent = Some 1, children = []\<rparr>],
         mount_points = [\<lparr>mtype = ''local'', mpath = ''/proj'', mroot = NodeRef 1\<rparr>],
         calls = []\<rparr>)"
    by (simp add: proj_vfs_eq vfs_eval mkdir_loop.simps(2) granting_provider_def)
  have good: "mkdir granting_provider proj_vfs ''/proj/sub/inner'' =
       (Return (NodeRef 4),
        \<lparr>node_id = 5, root = 0,
         nodes =
           [\<lparr>name = [], metadata = [(''id'', VNum 0)], parent = None, children = [(''proj'', 1)]\<rparr>,
            \<lparr>name = ''proj'',
             metadata = [(''id'', VNum 1), (''type'', VStr ''folder''), (''directoryHandle'', VHandle (Handle 0))],
             parent = Some 0, children = [(''x.txt'', 2), (''sub'', 3)]\<rparr>,
            \<lparr>name = ''x.txt'', metadata = [(''id'', VNum 2), (''type'', VStr ''file''), (''blob'', VBlob x_txt)],
             parent = Some 1, children = []\<rparr>,
            \<lparr>name = ''sub'',
             metadata = [(''id'', VNum 3), (''type'', VStr ''folder''), (''directoryHandle'', VHandle (Handle 1))],
             parent = Some 1, children = [(''inner'', 4)]\<rparr>,
            \<lparr>name = ''inner'',
             metadata = [(''id'', VNum 4), (''type'', VStr ''folder''), (''directoryHandle'', VHandle (Handle 2))],
             parent = Some 3, children = []\<rparr>],
         mount_points = [\<lparr>mtype = ''local'', mpath = ''/proj'', mroot = NodeRef 1\<rparr>],
         calls = [(Handle 0, ''sub''), (Handle 1, ''inner'')]\<rparr>)"
    by (simp add: proj_vfs_eq vfs_eval mkdir_loop.simps(2) granting_provider_def)
  have search: "priv_closest_directory_handler_local proj_vfs (NodeRef 1) ''/sub/toString''
      = Return (Some (VHandle (Handle 0), NodeRef 1, [''sub'', ''toString'']))"
    "priv_closest_directory_handler_local proj_vfs (NodeRef 1) ''/sub/inner''
      = Return (Some (VHandle (Handle 0), NodeRef 1, [''sub'', ''inner'']))"
    by (simp_all add: proj_vfs_eq vfs_eval)
  show ?thesis
    unfolding bad good using search by (simp add: vfs_eval)
qed

text \<open>
  A request that the provider rejects ends \<^verbatim>\<open>_mkdir_local\<close> in the same way, with the
  provider's error: the loop has no handler for it, where \<^verbatim>\<open>mount_local_file\<close> and
  \<^verbatim>\<open>mount_local_folder\<close> catch every error and return \<^verbatim>\<open>false\<close>. The nodes are mirrored
  by then, and those after the rejected request stay without handle.
\<close>

lemma local_mkdir_rejected_request:
  "fst (mkdir refusing_provider proj_vfs ''/proj/sub/inner'') = Throw ProviderError
   \<and> calls (snd (mkdir refusing_provider proj_vfs ''/proj/sub/inner'')) = [(Handle 0, ''sub'')]
   \<and> vfs_open (snd (mkdir refusing_provider proj_vfs ''/proj/sub/inner'')) (PStr ''/proj/sub/inner'')
      = Return (NodeRef 4)
   \<and> get_prop (metadata (nodes (snd (mkdir refusing_provider proj_vfs ''/proj/sub/inner'')) ! 3))
        ''directoryHandle'' = VUndefined"
proof -
  have "mkdir refusing_provider proj_vfs ''/proj/sub/inner'' =
       (Throw ProviderError,
        \<lparr>node_id = 5, root = 0,
         nodes =
           [\<lparr>name = [], metadata = [(''id'', VNum 0)], parent = None, children = [(''proj'', 1)]\<rparr>,
            \<lparr>name = ''proj'',
             metadata = [(''id'', VNum 1), (''type'', VStr ''folder''), (''directoryHandle'', VHandle (Handle 0))],
             parent = Some 0, children = [(''x.txt'', 2), (''sub'', 3)]\<rparr>,
            \<lparr>name = ''x.txt'', metadata = [(''id'', VNum 2), (''type'', VStr ''file''), (''blob'', VBlob x_txt)],
             parent = Some 1, children = []\<rparr>,
            \<lparr>name = ''sub'', metadata = [(''id'', VNum 3), (''type'', VStr ''folder'')],
             parent = Some 1, children = [(''inner'', 4)]\<rparr>,
            \<lparr>name = ''inner'', metadata = [(''id'', VNum 4), (''type'', VStr ''folder'')],
             parent = Some 3, children = []\<rparr>],
         mount_points = [\<lparr>mtype = ''local'', mpath = ''/proj'', mroot = NodeRef 1\<rparr>],
         calls = [(Handle 0, ''sub'')]\<rparr>)"
    by (simp add: proj_vfs_eq vfs_eval mkdir_loop.simps(2) refusing_provider_def)
  then show ?thesis by (simp add: vfs_eval)
qed

end
